theory Spec2Isabelle
  imports Main
begin

section \<open>Data model (src/types.ts)\<close>

text \<open>
  Strings are byte strings; a JavaScript \<open>string | undefined\<close> is a \<open>string option\<close>.
  The two JavaScript idioms the source applies to such values are written out:
  truthiness (\<open>undefined\<close>, \<open>null\<close> and the empty string are falsy) and \<open>x || ''\<close>.
\<close>

record Article =
  title :: string
  url :: string
  date_published :: string
  content :: string
  image_url :: "string option"

record ProcessorParams =
  article :: Article
  reprocess :: "bool option"

record ScraperParams =
  main_url :: "string option"
  feed_url :: "string option"

text \<open>
  An item of the parsed feed, as the code reads it from the XML parser's result: a field
  is \<open>Some s\<close> when the parser's value is truthy, \<open>s\<close> being its string form, and \<open>None\<close>
  when it is missing or falsy; \<open>item_media_content\<close> is \<open>Some u\<close> when the item has a
  media:content element, \<open>u\<close> being its url attribute. A feed entry is what \<open>parseRSSFeed\<close>
  stores per link.
\<close>

record RssItem =
  item_link :: "string option"
  item_title :: "string option"
  item_pubDate :: "string option"
  item_description :: "string option"
  item_media_content :: "string option option"

record FeedEntry =
  entry_title :: string
  entry_link :: string
  entry_published :: string
  entry_summary :: string
  entry_media_content :: "string list"

definition truthy :: "string option \<Rightarrow> bool" where
  "truthy x = (case x of None \<Rightarrow> False | Some s \<Rightarrow> s \<noteq> [])"

definition or_empty :: "string option \<Rightarrow> string" where
  "or_empty x = (case x of None \<Rightarrow> [] | Some s \<Rightarrow> s)"

definition or_default :: "string option \<Rightarrow> string \<Rightarrow> string" where
  "or_default x d = (if truthy x then the x else d)"

section \<open>The platform: exceptions, effects, the key-value store, durable steps\<close>

datatype exn =
    JsError string
  | URIError
  | RangeError
  | KVTooManyKeys
  | DataCloneError

record Metadata =
  meta_processed_at :: string
  meta_title :: string
  meta_url :: string
  meta_summary :: string

record TelegramRequest =
  endpoint :: string
  chat_id :: string
  photo :: string
  caption :: string
  parse_mode :: string
  inline_keyboard :: "(string \<times> string) list list"
  timeout_ms :: nat
  retry_limit :: nat

datatype gen_outcome = GenObject string | GenThrows

datatype post_outcome = PostJson bool | PostThrows

datatype event =
    is_KVGet: KVGet string
  | is_KVGetBulk: KVGetBulk "string list"
  | is_KVPut: KVPut string string nat
  | is_GenerateObject: GenerateObject string string gen_outcome
  | is_KyPost: KyPost TelegramRequest post_outcome
  | is_KyGet: KyGet string "string option"
  | is_CreateBatch: CreateBatch "(string \<times> ProcessorParams) list"
  | is_ConsoleLog: ConsoleLog string
  | is_ConsoleError: ConsoleError string

record kv_entry =
  kv_value :: string
  kv_expiration :: int

text \<open>
  The world is the state shared with the platform: the contents of the GH_NEWS_CACHE
  namespace and the sequence of effects performed so far. Every effect appends one event,
  so the length of the trace numbers the effects.
\<close>

record world =
  kv :: "string \<rightharpoonup> kv_entry"
  trace :: "event list"

text \<open>
  The environment fixes everything the code does not decide: the wall clock (milliseconds)
  at which the n-th effect runs, the JavaScript built-ins the source calls, and the outcome
  of each call to an external service, indexed by the number of the effect. Theorems
  quantify over all environments.
\<close>

record env =
  time_at :: "nat \<Rightarrow> int"
  toISOString :: "int \<Rightarrow> string"
  Date_parse :: "string \<Rightarrow> int option"
  encodeURI :: "string \<Rightarrow> string option"
  JSON_stringify :: "Metadata \<Rightarrow> string"
  generateObject :: "nat \<Rightarrow> string \<Rightarrow> string \<Rightarrow> gen_outcome"
  ky_post_json :: "nat \<Rightarrow> TelegramRequest \<Rightarrow> post_outcome"
  ky_get_text :: "nat \<Rightarrow> string \<Rightarrow> string option"
  HTMLRewriter_hrefs :: "string \<Rightarrow> string option list option"
  XMLParser_parse :: "string \<Rightarrow> RssItem list option"
  randomUUID :: "nat \<Rightarrow> nat \<Rightarrow> string"
  clone_drops_prototype :: bool
  TELEGRAM_BOT_TOKEN :: string
  TELEGRAM_CHANNEL_ID :: string

definition now :: "env \<Rightarrow> world \<Rightarrow> int" where
  "now E w = time_at E (length (trace w))"

definition emit :: "event \<Rightarrow> world \<Rightarrow> world" where
  "emit ev w = w\<lparr>trace := trace w @ [ev]\<rparr>"

text \<open>
  The key-value store, from its contract in the specification (section 6): \<open>get\<close> returns
  the value or absent, \<open>put\<close> stores a value that expires after \<open>ttl\<close> seconds, the bulk
  read takes at most 100 keys and returns a map from each requested key to its value or
  \<open>null\<close> (modelled as \<open>Some None\<close>).
\<close>

definition kv_lookup :: "(string \<rightharpoonup> kv_entry) \<Rightarrow> int \<Rightarrow> string \<Rightarrow> string option" where
  "kv_lookup store t k =
     (case store k of
        None \<Rightarrow> None
      | Some e \<Rightarrow> if t < kv_expiration e then Some (kv_value e) else None)"

definition GH_NEWS_CACHE_get :: "env \<Rightarrow> string \<Rightarrow> world \<Rightarrow> string option \<times> world" where
  "GH_NEWS_CACHE_get E k w = (kv_lookup (kv w) (now E w) k, emit (KVGet k) w)"

definition kv_bulk_limit :: nat where
  "kv_bulk_limit = 100"

definition GH_NEWS_CACHE_get_bulk ::
  "env \<Rightarrow> string list \<Rightarrow> world \<Rightarrow> (exn + (string \<rightharpoonup> string option)) \<times> world" where
  "GH_NEWS_CACHE_get_bulk E ks w =
     (if length ks > kv_bulk_limit then (Inl KVTooManyKeys, emit (KVGetBulk ks) w)
      else (Inr (\<lambda>k. if k \<in> set ks then Some (kv_lookup (kv w) (now E w) k) else None),
            emit (KVGetBulk ks) w))"

definition GH_NEWS_CACHE_put :: "env \<Rightarrow> string \<Rightarrow> string \<Rightarrow> nat \<Rightarrow> world \<Rightarrow> world" where
  "GH_NEWS_CACHE_put E k v ttl w =
     emit (KVPut k v ttl)
       (w\<lparr>kv := (kv w)(k \<mapsto> \<lparr>kv_value = v, kv_expiration = now E w + int ttl * 1000\<rparr>)\<rparr>)"

text \<open>
  \<open>step.do\<close>: the substrate runs the body; when the body throws it runs it again, up to
  \<open>limit\<close> retries after the first attempt, and rethrows the last exception when they
  are used up. A step without a configuration gets the platform's default limit of five.
  Each attempt starts in the world the previous one left. The results below hold for
  every limit. Backoff delays and per-attempt timeouts are real time and are not part of
  the model.
\<close>

fun attempts :: "nat \<Rightarrow> (world \<Rightarrow> (exn + 'a) \<times> world) \<Rightarrow> world \<Rightarrow> (exn + 'a) \<times> world" where
  "attempts 0 body w = body w"
| "attempts (Suc n) body w =
     (case body w of
        (Inr v, w') \<Rightarrow> (Inr v, w')
      | (Inl e, w') \<Rightarrow> attempts n body w')"

definition step_do :: "nat \<Rightarrow> (world \<Rightarrow> (exn + 'a) \<times> world) \<Rightarrow> world \<Rightarrow> (exn + 'a) \<times> world" where
  "step_do limit body w = attempts limit body w"

definition default_retry_limit :: nat where
  "default_retry_limit = 5"

section \<open>Plain JavaScript objects used as dictionaries\<close>

text \<open>
  The scraper keeps its two tables in plain objects. The own properties of such an object
  are a finite map. A read \<open>obj[key]\<close> of a key that is not an own property goes on to
  \<open>Object.prototype\<close>: for one of its twelve property names the read returns that
  property (a function, or the prototype itself for \<open>__proto__\<close>), a truthy value without
  any of the fields of a feed entry. A write \<open>obj[key] = v\<close> creates or replaces an own
  property, except for the key \<open>__proto__\<close>, whose setter creates no own property: it
  ignores a primitive \<open>v\<close> and makes an object \<open>v\<close> the prototype of \<open>obj\<close>.
\<close>

definition Object_prototype_names :: "string list" where
  "Object_prototype_names =
     [''constructor'', ''__defineGetter__'', ''__defineSetter__'', ''hasOwnProperty'',
      ''__lookupGetter__'', ''__lookupSetter__'', ''isPrototypeOf'', ''propertyIsEnumerable'',
      ''toString'', ''valueOf'', ''__proto__'', ''toLocaleString'']"

datatype 'v js_lookup = Own 'v | Inherited | Undefined

definition js_get :: "(string \<rightharpoonup> 'v) \<Rightarrow> string \<Rightarrow> 'v js_lookup" where
  "js_get obj key =
     (case obj key of
        Some v \<Rightarrow> Own v
      | None \<Rightarrow> if key \<in> set Object_prototype_names then Inherited else Undefined)"

definition js_set_primitive :: "(string \<rightharpoonup> 'v) \<Rightarrow> string \<Rightarrow> 'v \<Rightarrow> (string \<rightharpoonup> 'v)" where
  "js_set_primitive obj key v = (if key = ''__proto__'' then obj else obj(key \<mapsto> v))"

text \<open>
  The object \<open>parseRSSFeed\<close> builds has entries as values, so a write under \<open>__proto__\<close>
  replaces its prototype: the object is its own properties and the entry, if any, that
  became its prototype.
\<close>

record FeedObject =
  own_entries :: "string \<rightharpoonup> FeedEntry"
  proto_entry :: "FeedEntry option"

definition js_set_entry :: "FeedObject \<Rightarrow> string \<Rightarrow> FeedEntry \<Rightarrow> FeedObject" where
  "js_set_entry obj key v =
     (if key = ''__proto__'' then obj\<lparr>proto_entry := Some v\<rparr>
      else obj\<lparr>own_entries := (own_entries obj)(key \<mapsto> v)\<rparr>)"

section \<open>src/worker/utils.ts\<close>

text \<open>
  The file holds two versions of its functions. The first (lines 1 to 128), whose
  \<open>sendTelegramMessage\<close> falls back to a constant image, is the one embedded here. An
  effect whose log line carries an error object is recorded by the text of the line alone.
\<close>

definition summarizeArticle :: "env \<Rightarrow> string \<Rightarrow> world \<Rightarrow> (exn + string option) \<times> world" where
  "summarizeArticle E text w =
     (let model = ''gemini-2.0-flash'';
          prompt = ''Provide 2 paragraphs summarizing the following article:''
                     @ [CHR 0x0A, CHR 0x0A] @ text;
          outcome = generateObject E (length (trace w)) model prompt;
          w1 = emit (GenerateObject model prompt outcome) w
      in case outcome of
           GenObject s \<Rightarrow> (Inr (Some s), w1)
         | GenThrows \<Rightarrow> (Inr None, emit (ConsoleError ''Summarization failed:'') w1))"

definition fallbackImageUrl :: string where
  "fallbackImageUrl =
     ''https://images.unsplash.com/photo-1504711434969-e33886168f5c?ixlib=rb-4.0.3&q=80&fm=jpg&crop=entropy&cs=tinysrgb&w=800&h=400&fit=crop''"

definition sendPhoto_request ::
  "string \<Rightarrow> string \<Rightarrow> string \<Rightarrow> string \<Rightarrow> string \<Rightarrow> nat \<Rightarrow> TelegramRequest" where
  "sendPhoto_request botToken channelId message photoUrl articleUrl limit =
     \<lparr>endpoint = ''https://api.telegram.org/bot'' @ botToken @ ''/sendPhoto'',
      chat_id = channelId,
      photo = photoUrl,
      caption = message,
      parse_mode = ''HTML'',
      inline_keyboard = [[(''Read more'', articleUrl)]],
      timeout_ms = 30000,
      retry_limit = limit\<rparr>"

definition ky_post :: "env \<Rightarrow> TelegramRequest \<Rightarrow> world \<Rightarrow> post_outcome \<times> world" where
  "ky_post E req w =
     (let outcome = ky_post_json E (length (trace w)) req
      in (outcome, emit (KyPost req outcome) w))"

definition sendTelegramMessage ::
  "env \<Rightarrow> string \<Rightarrow> string \<Rightarrow> string \<Rightarrow> string \<Rightarrow> string \<Rightarrow> world \<Rightarrow> (exn + bool) \<times> world" where
  "sendTelegramMessage E botToken channelId message imageUrl articleUrl w =
     (case encodeURI E imageUrl of
        None \<Rightarrow> (Inr False, emit (ConsoleError ''Error sending Telegram message:'') w)
      | Some encodedImageUrl \<Rightarrow>
          (case ky_post E (sendPhoto_request botToken channelId message encodedImageUrl articleUrl 2) w of
             (PostJson True, w1) \<Rightarrow> (Inr True, w1)
           | (r1, w1) \<Rightarrow>
               (let w2 = emit (ConsoleLog ''Using fallback image due to error:'') w1
                in case ky_post E (sendPhoto_request botToken channelId message fallbackImageUrl articleUrl 3) w2 of
                     (PostThrows, w3) \<Rightarrow>
                       (Inr False, emit (ConsoleError ''Error sending Telegram message:'') w3)
                   | (PostJson False, w3) \<Rightarrow>
                       (Inr False, emit (ConsoleError ''Telegram fallback photo error:'') w3)
                   | (PostJson True, w3) \<Rightarrow> (Inr True, w3))))"

section \<open>src/worker/workflows/gh-news-processor.ts\<close>

datatype ProcessorResult =
    Skipped bool bool string string
  | Processed bool string string string bool string

definition Processor_CACHE_KEY_PREFIX :: string where
  "Processor_CACHE_KEY_PREFIX = ''article:''"

definition check_if_processed :: "env \<Rightarrow> Article \<Rightarrow> world \<Rightarrow> (exn + bool) \<times> world" where
  "check_if_processed E a w =
     (let cacheKey = Processor_CACHE_KEY_PREFIX @ url a
      in case GH_NEWS_CACHE_get E cacheKey w of (v, w1) \<Rightarrow> (Inr (v \<noteq> None), w1))"

definition generate_summary :: "env \<Rightarrow> Article \<Rightarrow> world \<Rightarrow> (exn + string option) \<times> world" where
  "generate_summary E a w = summarizeArticle E (content a) w"

definition create_message :: "Article \<Rightarrow> string \<Rightarrow> world \<Rightarrow> (exn + string) \<times> world" where
  "create_message a summary w =
     (let emoji = [CHR 0xF0, CHR 0x9F, CHR 0x93, CHR 0xB0]
      in (Inr (emoji @ '' <b>'' @ title a @ ''</b>'' @ [CHR 0x0A, CHR 0x0A]
                 @ ''<i>'' @ summary @ ''</i>''), w))"

definition send_telegram_message ::
  "env \<Rightarrow> Article \<Rightarrow> string \<Rightarrow> world \<Rightarrow> (exn + bool) \<times> world" where
  "send_telegram_message E a telegramMessage w =
     (let imageUrl = or_default (image_url a) fallbackImageUrl
      in case encodeURI E imageUrl of
           None \<Rightarrow> (Inl URIError, w)
         | Some encodedImageUrl \<Rightarrow>
             sendTelegramMessage E (TELEGRAM_BOT_TOKEN E) (TELEGRAM_CHANNEL_ID E)
               telegramMessage encodedImageUrl (url a) w)"

definition mark_as_processed :: "env \<Rightarrow> Article \<Rightarrow> string \<Rightarrow> world \<Rightarrow> (exn + bool) \<times> world" where
  "mark_as_processed E a summary w =
     (let metadata = \<lparr>meta_processed_at = toISOString E (now E w),
                      meta_title = title a,
                      meta_url = url a,
                      meta_summary = summary\<rparr>;
          ttl = 86400;
          cacheKey = Processor_CACHE_KEY_PREFIX @ url a
      in (Inr True, GH_NEWS_CACHE_put E cacheKey (JSON_stringify E metadata) ttl w))"

text \<open>Steps 2 to 5 of \<open>run\<close>: everything after the idempotency check.\<close>

definition summarize_send_record ::
  "env \<Rightarrow> Article \<Rightarrow> world \<Rightarrow> (exn + ProcessorResult) \<times> world" where
  "summarize_send_record E a w0 =
     (case step_do 3 (generate_summary E a) w0 of
        (Inl e, w1) \<Rightarrow> (Inl e, w1)
      | (Inr summary, w1) \<Rightarrow>
          if \<not> truthy summary
          then (Inl (JsError (''Failed to generate summary for article: '' @ url a)), w1)
          else
            (case step_do default_retry_limit (create_message a (the summary)) w1 of
               (Inl e, w2) \<Rightarrow> (Inl e, w2)
             | (Inr telegramMessage, w2) \<Rightarrow>
                 (case step_do 5 (send_telegram_message E a telegramMessage) w2 of
                    (Inl e, w3) \<Rightarrow> (Inl e, w3)
                  | (Inr sendResult, w3) \<Rightarrow>
                      if \<not> sendResult
                      then (Inl (JsError (''Failed to send Telegram message for article: '' @ url a)), w3)
                      else
                        (case step_do 3 (mark_as_processed E a (the summary)) w3 of
                           (Inl e, w4) \<Rightarrow> (Inl e, w4)
                         | (Inr marked, w4) \<Rightarrow>
                             (Inr (Processed True (url a) (title a) (the summary) True
                                     (toISOString E (now E w4))), w4)))))"

definition run_processor ::
  "env \<Rightarrow> ProcessorParams \<Rightarrow> world \<Rightarrow> (exn + ProcessorResult) \<times> world" where
  "run_processor E payload w0 =
     (let a = article payload;
          reprocess' = (case reprocess payload of None \<Rightarrow> False | Some b \<Rightarrow> b)
      in if \<not> reprocess'
         then
           (case step_do default_retry_limit (check_if_processed E a) w0 of
              (Inl e, w1) \<Rightarrow> (Inl e, w1)
            | (Inr isProcessed, w1) \<Rightarrow>
                if isProcessed
                then (Inr (Skipped True True ''Article already processed'' (url a)), w1)
                else summarize_send_record E a w1)
         else summarize_send_record E a w0)"

section \<open>src/workflows/joy-news-scraper.ts\<close>

record ProcessorTrigger =
  trigger_url :: string
  processor_id :: string
  status :: string

record ScraperResult =
  success :: bool
  total_links :: nat
  total_processed :: nat
  processors :: "ProcessorTrigger list"
  timestamp :: string

definition Scraper_CACHE_KEY_PREFIX :: string where
  "Scraper_CACHE_KEY_PREFIX = ''article:''"

definition DEFAULT_MAIN_URL :: string where
  "DEFAULT_MAIN_URL = ''https://www.myjoyonline.com/''"

definition DEFAULT_FEED_URL :: string where
  "DEFAULT_FEED_URL = ''https://www.myjoyonline.com/feed/''"

definition feed_entry_of :: "string \<Rightarrow> RssItem \<Rightarrow> FeedEntry" where
  "feed_entry_of link item =
     \<lparr>entry_title = or_empty (item_title item),
      entry_link = link,
      entry_published = or_empty (item_pubDate item),
      entry_summary = or_empty (item_description item),
      entry_media_content =
        (case item_media_content item of None \<Rightarrow> [] | Some u \<Rightarrow> [or_empty u])\<rparr>"

definition empty_object :: FeedObject where
  "empty_object = \<lparr>own_entries = Map.empty, proto_entry = None\<rparr>"

definition parseRSSFeed :: "env \<Rightarrow> string \<Rightarrow> world \<Rightarrow> FeedObject \<times> world" where
  "parseRSSFeed E xml w =
     (case XMLParser_parse E xml of
        None \<Rightarrow> (empty_object, emit (ConsoleError ''Error parsing RSS feed:'') w)
      | Some items \<Rightarrow>
          (fold (\<lambda>item entries.
                   if truthy (item_link item)
                   then js_set_entry entries (the (item_link item))
                          (feed_entry_of (the (item_link item)) item)
                   else entries)
                items empty_object, w))"

definition ky_get :: "env \<Rightarrow> string \<Rightarrow> world \<Rightarrow> string option \<times> world" where
  "ky_get E u w =
     (let outcome = ky_get_text E (length (trace w)) u
      in (outcome, emit (KyGet u outcome) w))"

definition scrapeMainPage :: "env \<Rightarrow> string \<Rightarrow> world \<Rightarrow> string list \<times> world" where
  "scrapeMainPage E u w =
     (case ky_get E u w of
        (None, w1) \<Rightarrow> ([], emit (ConsoleError (''Failed to fetch or parse '' @ u @ '':'')) w1)
      | (Some html, w1) \<Rightarrow>
          (case HTMLRewriter_hrefs E html of
             None \<Rightarrow> ([], emit (ConsoleError (''Failed to fetch or parse '' @ u @ '':'')) w1)
           | Some hrefs \<Rightarrow> (map the (filter truthy hrefs), w1)))"

definition scrapeFeed :: "env \<Rightarrow> string \<Rightarrow> world \<Rightarrow> FeedObject \<times> world" where
  "scrapeFeed E u w =
     (case ky_get E u w of
        (None, w1) \<Rightarrow>
          (empty_object, emit (ConsoleError (''Failed to fetch or parse feed '' @ u @ '':'')) w1)
      | (Some xml, w1) \<Rightarrow> parseRSSFeed E xml w1)"

definition fetch_article_links :: "env \<Rightarrow> string \<Rightarrow> world \<Rightarrow> (exn + string list) \<times> world" where
  "fetch_article_links E mainUrl w =
     (case scrapeMainPage E mainUrl w of (links, w1) \<Rightarrow> (Inr links, w1))"

text \<open>
  The value a step body returns reaches the workflow through the engine, which stores a
  copy of it: the workflow gets a plain object with the own properties of the original.
  For an object whose prototype was replaced the environment says what the engine does:
  it copies the own properties and drops the prototype, or it refuses the object with a
  DataCloneError and the attempt counts as failed.
\<close>

definition fetch_feed_entries ::
  "env \<Rightarrow> string \<Rightarrow> world \<Rightarrow> (exn + (string \<rightharpoonup> FeedEntry)) \<times> world" where
  "fetch_feed_entries E feedUrl w =
     (case scrapeFeed E feedUrl w of
        (entries, w1) \<Rightarrow>
          (case proto_entry entries of
             None \<Rightarrow> (Inr (own_entries entries), w1)
           | Some p \<Rightarrow>
               if clone_drops_prototype E then (Inr (own_entries entries), w1)
               else (Inl DataCloneError, w1)))"

definition check_processed_articles ::
  "env \<Rightarrow> string list \<Rightarrow> world \<Rightarrow> (exn + (string \<rightharpoonup> bool)) \<times> world" where
  "check_processed_articles E articleLinks w =
     (if length articleLinks = 0 then (Inr Map.empty, w)
      else
        (let cacheKeys = map (\<lambda>link. Scraper_CACHE_KEY_PREFIX @ link) articleLinks
         in case GH_NEWS_CACHE_get_bulk E cacheKeys w of
              (Inl e, w1) \<Rightarrow> (Inl e, w1)
            | (Inr cachedValues, w1) \<Rightarrow>
                (Inr (fold (\<lambda>link processed.
                              js_set_primitive processed link
                                (cachedValues (Scraper_CACHE_KEY_PREFIX @ link) \<noteq> Some None))
                           articleLinks Map.empty), w1)))"

text \<open>
  The publish date of an article. \<open>new Date(s)\<close> of a string that does not parse is an
  Invalid Date, and \<open>toISOString\<close> of an Invalid Date throws a RangeError.
\<close>

definition datePublished_of :: "env \<Rightarrow> FeedEntry \<Rightarrow> world \<Rightarrow> exn + string" where
  "datePublished_of E entry w =
     (if entry_published entry \<noteq> []
      then (case Date_parse E (entry_published entry) of
              None \<Rightarrow> Inl RangeError
            | Some t \<Rightarrow> Inr (toISOString E t))
      else Inr (toISOString E (now E w)))"

text \<open>
  \<open>processedArticles[link]\<close> as a condition: an own property counts by its value, an
  inherited one is truthy. \<open>feedEntries[link]\<close> is falsy only when undefined; an inherited
  property has none of \<open>published\<close>, \<open>title\<close>, \<open>summary\<close> and \<open>media_content\<close>, so the article
  made from it has the current time as its date and empty strings elsewhere.
\<close>

definition marked :: "(string \<rightharpoonup> bool) \<Rightarrow> string \<Rightarrow> bool" where
  "marked processedArticles link =
     (case js_get processedArticles link of
        Own b \<Rightarrow> b
      | Inherited \<Rightarrow> True
      | Undefined \<Rightarrow> False)"

fun prepare_loop ::
  "env \<Rightarrow> (string \<rightharpoonup> bool) \<Rightarrow> (string \<rightharpoonup> FeedEntry) \<Rightarrow> string list \<Rightarrow> Article list \<Rightarrow> world
     \<Rightarrow> (exn + Article list) \<times> world" where
  "prepare_loop E processedArticles feedEntries [] articles w = (Inr articles, w)"
| "prepare_loop E processedArticles feedEntries (link # rest) articles w =
     (if marked processedArticles link
      then prepare_loop E processedArticles feedEntries rest articles
             (emit (ConsoleLog (''Skipping already processed article: '' @ link)) w)
      else
        (case js_get feedEntries link of
           Undefined \<Rightarrow>
             prepare_loop E processedArticles feedEntries rest articles
               (emit (ConsoleLog (''Article not found in feed: '' @ link)) w)
         | Inherited \<Rightarrow>
             prepare_loop E processedArticles feedEntries rest
               (articles @
                  [\<lparr>title = [],
                    url = link,
                    date_published = toISOString E (now E w),
                    content = [],
                    image_url = Some []\<rparr>])
               w
         | Own entry \<Rightarrow>
             (case datePublished_of E entry w of
                Inl e \<Rightarrow> (Inl e, w)
              | Inr datePublished \<Rightarrow>
                  prepare_loop E processedArticles feedEntries rest
                    (articles @
                       [\<lparr>title = entry_title entry,
                         url = link,
                         date_published = datePublished,
                         content = entry_summary entry,
                         image_url = Some (case entry_media_content entry of
                                             [] \<Rightarrow> [] | u # _ \<Rightarrow> u)\<rparr>])
                    w)))"

definition prepare_articles ::
  "env \<Rightarrow> (string \<rightharpoonup> bool) \<Rightarrow> (string \<rightharpoonup> FeedEntry) \<Rightarrow> string list \<Rightarrow> world
     \<Rightarrow> (exn + Article list) \<times> world" where
  "prepare_articles E processedArticles feedEntries articleLinks w =
     prepare_loop E processedArticles feedEntries articleLinks [] w"

text \<open>
  \<open>createBatch\<close> creates one instance per element of the batch and returns the instances
  in the order of the batch, each with the id it was given.
\<close>

definition trigger_processors ::
  "env \<Rightarrow> Article list \<Rightarrow> world \<Rightarrow> (exn + ProcessorTrigger list) \<times> world" where
  "trigger_processors E articlesToProcess w =
     (if length articlesToProcess = 0 then (Inr [], w)
      else
        (let batchData =
               map (\<lambda>(index, a). (randomUUID E (length (trace w)) index,
                                   \<lparr>article = a, reprocess = None\<rparr>))
                   (enumerate 0 articlesToProcess);
             w1 = emit (CreateBatch batchData) w;
             instances = map fst batchData
         in (Inr (map (\<lambda>(index, instance).
                         \<lparr>trigger_url = url (articlesToProcess ! index),
                          processor_id = instance,
                          status = ''triggered''\<rparr>)
                      (enumerate 0 instances)), w1)))"

text \<open>Steps 3 to 5 of \<open>run\<close> and its result, given what the two fetch steps returned.\<close>

definition check_prepare_trigger ::
  "env \<Rightarrow> string list \<Rightarrow> (string \<rightharpoonup> FeedEntry) \<Rightarrow> world \<Rightarrow> (exn + ScraperResult) \<times> world" where
  "check_prepare_trigger E articleLinks feedEntries w2 =
     (case step_do default_retry_limit (check_processed_articles E articleLinks) w2 of
        (Inl e, w3) \<Rightarrow> (Inl e, w3)
      | (Inr processedArticles, w3) \<Rightarrow>
          (case step_do default_retry_limit
                  (prepare_articles E processedArticles feedEntries articleLinks) w3 of
             (Inl e, w4) \<Rightarrow> (Inl e, w4)
           | (Inr articlesToProcess, w4) \<Rightarrow>
               (case step_do default_retry_limit (trigger_processors E articlesToProcess) w4 of
                  (Inl e, w5) \<Rightarrow> (Inl e, w5)
                | (Inr processorResults, w5) \<Rightarrow>
                    (Inr \<lparr>success = True,
                          total_links = length articleLinks,
                          total_processed = length articlesToProcess,
                          processors = processorResults,
                          timestamp = toISOString E (now E w5)\<rparr>, w5))))"

definition run_scraper ::
  "env \<Rightarrow> ScraperParams option \<Rightarrow> world \<Rightarrow> (exn + ScraperResult) \<times> world" where
  "run_scraper E payload w0 =
     (let mainUrl = or_default (case payload of None \<Rightarrow> None | Some p \<Rightarrow> main_url p)
                      DEFAULT_MAIN_URL;
          feedUrl = or_default (case payload of None \<Rightarrow> None | Some p \<Rightarrow> feed_url p)
                      DEFAULT_FEED_URL
      in case step_do 3 (fetch_article_links E mainUrl) w0 of
           (Inl e, w1) \<Rightarrow> (Inl e, w1)
         | (Inr articleLinks, w1) \<Rightarrow>
             (case step_do 3 (fetch_feed_entries E feedUrl) w1 of
                (Inl e, w2) \<Rightarrow> (Inl e, w2)
              | (Inr feedEntries, w2) \<Rightarrow>
                  check_prepare_trigger E articleLinks feedEntries w2))"

section \<open>Observing a run\<close>

definition run_events :: "world \<Rightarrow> world \<Rightarrow> event list" where
  "run_events w w' = drop (length (trace w)) (trace w')"

fun batch_urls :: "event \<Rightarrow> string list" where
  "batch_urls (CreateBatch batch) = map (\<lambda>(i, p). url (article p)) batch"
| "batch_urls _ = []"

definition triggered_urls :: "event list \<Rightarrow> string list" where
  "triggered_urls evs = concat (map batch_urls evs)"

definition live_entry :: "env \<Rightarrow> world \<Rightarrow> string \<Rightarrow> bool" where
  "live_entry E w u = (kv_lookup (kv w) (now E w) (''article:'' @ u) \<noteq> None)"

text \<open>
  Reading a trace. A send was attempted when the trace has a notification post or the line
  \<open>sendTelegramMessage\<close> logs from its outer handler; it succeeded when a post returned
  ok. A model outcome is usable when it is a non-empty summary, the condition under which
  \<open>!summary\<close> is false.
\<close>

definition send_attempted :: "event list \<Rightarrow> bool" where
  "send_attempted evs = (\<exists>e \<in> set evs. is_KyPost e \<or> e = ConsoleError ''Error sending Telegram message:'')"

definition send_succeeded :: "event list \<Rightarrow> bool" where
  "send_succeeded evs = (\<exists>req. KyPost req (PostJson True) \<in> set evs)"

definition summary_prompt :: "string \<Rightarrow> string" where
  "summary_prompt text = ''Provide 2 paragraphs summarizing the following article:'' @ [CHR 0x0A, CHR 0x0A] @ text"

definition usable :: "gen_outcome \<Rightarrow> bool" where
  "usable g = (case g of GenThrows \<Rightarrow> False | GenObject s \<Rightarrow> s \<noteq> [])"

definition message_of :: "Article \<Rightarrow> string \<Rightarrow> string" where
  "message_of a s = [CHR 0xF0, CHR 0x9F, CHR 0x93, CHR 0xB0] @ '' <b>'' @ title a @ ''</b>''
       @ [CHR 0x0A, CHR 0x0A] @ ''<i>'' @ s @ ''</i>''"

definition gen_event :: "Article \<Rightarrow> gen_outcome \<Rightarrow> event" where
  "gen_event a g = GenerateObject ''gemini-2.0-flash'' (summary_prompt (content a)) g"

definition put_event :: "env \<Rightarrow> Article \<Rightarrow> string \<Rightarrow> world \<Rightarrow> event" where
  "put_event E a s w = KVPut (''article:'' @ url a)
      (JSON_stringify E \<lparr>meta_processed_at = toISOString E (now E w), meta_title = title a,
                          meta_url = url a, meta_summary = s\<rparr>) 86400"

text \<open>
  The possible outcomes of steps 2 to 5 of a Delivery run that started with the store
  \<open>store\<close>: \<open>g\<close> is what the model call returned and \<open>rest\<close> the events after it.
\<close>

definition delivery_outcome ::
  "env \<Rightarrow> Article \<Rightarrow> (string \<rightharpoonup> kv_entry) \<Rightarrow> exn + ProcessorResult \<Rightarrow> world \<Rightarrow> gen_outcome
     \<Rightarrow> event list \<Rightarrow> bool" where
  "delivery_outcome E a store r w' g rest =
     (case r of
           Inl e \<Rightarrow> kv w' = store \<and> (\<forall>e \<in> set rest. \<not> is_KVPut e)
              \<and> (\<forall>e \<in> set rest. is_KyPost e \<or> is_ConsoleLog e \<or> is_ConsoleError e)
              \<and> (if \<not> usable g
                  then e = JsError (''Failed to generate summary for article: '' @ url a)
                       \<and> (\<forall>e \<in> set rest. \<not> is_KyPost e) \<and> \<not> send_attempted rest
                  else if e = URIError then rest = []
                  else e = JsError (''Failed to send Telegram message for article: '' @ url a)
                       \<and> send_attempted rest \<and> \<not> send_succeeded rest)
         | Inr res \<Rightarrow> (\<exists>s pre req v. g = GenObject s \<and> s \<noteq> []
              \<and> rest = pre @ [KyPost req (PostJson True), KVPut (''article:'' @ url a) v 86400]
              \<and> (\<forall>e \<in> set pre. is_KyPost e \<or> is_ConsoleLog e \<or> is_ConsoleError e)
              \<and> res = Processed True (url a) (title a) s True (toISOString E (now E w'))
              \<and> kv w' = store(''article:'' @ url a \<mapsto>
                    \<lparr>kv_value = v, kv_expiration = time_at E (length (trace w') - 1) + 86400000\<rparr>)))"

text \<open>
  How the send step of such a run begins, once the summary is usable. When the image
  reference cannot be encoded the step body throws, the run ends with that URIError and
  nothing follows the model call. Otherwise the send is attempted, and unless the second
  encoding inside \<open>sendTelegramMessage\<close> fails, the first event after the model call is the
  post of the composed message with the encoded image.
\<close>

definition send_step_entry ::
  "env \<Rightarrow> Article \<Rightarrow> gen_outcome \<Rightarrow> exn + ProcessorResult \<Rightarrow> event list \<Rightarrow> bool" where
  "send_step_entry E a g r rest =
     (case g of
        GenThrows \<Rightarrow> True
      | GenObject s \<Rightarrow>
          s = [] \<or>
          (case encodeURI E (or_default (image_url a) fallbackImageUrl) of
             None \<Rightarrow> r = Inl URIError \<and> rest = []
           | Some enc \<Rightarrow>
               r \<noteq> Inl URIError \<and> send_attempted rest
               \<and> (case encodeURI E enc of
                     None \<Rightarrow> rest = [ConsoleError ''Error sending Telegram message:'']
                   | Some enc2 \<Rightarrow>
                       \<exists>out rest'. rest =
                          KyPost (sendPhoto_request (TELEGRAM_BOT_TOKEN E) (TELEGRAM_CHANNEL_ID E)
                                    (message_of a s) enc2 (url a) 2) out # rest')))"

text \<open>
  \<open>effects_within Q w w'\<close>: from \<open>w\<close> to \<open>w'\<close> the store is unchanged and every new event
  satisfies \<open>Q\<close>. A link is selected for assembly when \<open>processedArticles[link]\<close> is falsy
  and \<open>feedEntries[link]\<close> is not undefined; an entry is unparseable when its publish date
  is present and does not parse; \<open>dates_parse\<close> says that no selected link of the list has
  such an entry among the feed's own. \<open>delivered_map\<close> holds the own properties of the
  object the bulk check computes.
\<close>

definition effects_within :: "(event \<Rightarrow> bool) \<Rightarrow> world \<Rightarrow> world \<Rightarrow> bool" where
  "effects_within Q w w' = (kv w' = kv w \<and> (\<exists>evs. trace w' = trace w @ evs \<and> list_all Q evs))"

definition unparseable :: "env \<Rightarrow> FeedEntry \<Rightarrow> bool" where
  "unparseable E entry = (entry_published entry \<noteq> [] \<and> Date_parse E (entry_published entry) = None)"

definition selected :: "(string \<rightharpoonup> bool) \<Rightarrow> (string \<rightharpoonup> FeedEntry) \<Rightarrow> string \<Rightarrow> bool" where
  "selected processed feed l = (\<not> marked processed l \<and> js_get feed l \<noteq> Undefined)"

definition dates_parse :: "env \<Rightarrow> (string \<rightharpoonup> bool) \<Rightarrow> (string \<rightharpoonup> FeedEntry) \<Rightarrow> string list \<Rightarrow> bool" where
  "dates_parse E processed feed links =
     list_all (\<lambda>l. \<not> (selected processed feed l
                     \<and> (case feed l of None \<Rightarrow> False | Some entry \<Rightarrow> unparseable E entry)))
       links"

definition delivered_map :: "env \<Rightarrow> world \<Rightarrow> string list \<Rightarrow> (string \<rightharpoonup> bool)" where
  "delivered_map E w links =
     (\<lambda>l. if l \<in> set links \<and> l \<noteq> ''__proto__'' then Some (live_entry E w l) else None)"

text \<open>
  The line \<open>prepare_articles\<close> logs for a link it drops, and the possible outcomes of steps
  3 to 5 of a Discovery run started in world \<open>w\<close> with the given links and feed mapping.
\<close>

definition drop_log :: "(string \<rightharpoonup> bool) \<Rightarrow> string \<Rightarrow> event" where
  "drop_log processed l =
     ConsoleLog ((if marked processed l then ''Skipping already processed article: ''
                  else ''Article not found in feed: '') @ l)"

definition fan_out_outcome ::
  "env \<Rightarrow> string list \<Rightarrow> (string \<rightharpoonup> FeedEntry) \<Rightarrow> world \<Rightarrow> exn + ScraperResult \<Rightarrow> event list \<Rightarrow> bool" where
  "fan_out_outcome E links feed w r evs =
     (if length links > 100 then r = Inl KVTooManyKeys \<and> triggered_urls evs = []
      else if \<not> dates_parse E (delivered_map E w links) feed links
      then r = Inl RangeError \<and> triggered_urls evs = []
      else \<exists>res. r = Inr res
             \<and> triggered_urls evs = filter (selected (delivered_map E w links) feed) links
             \<and> map trigger_url (processors res) =
                 filter (selected (delivered_map E w links) feed) links
             \<and> length (filter is_CreateBatch evs) \<le> 1
             \<and> success res \<and> total_links res = length links
             \<and> total_processed res = length (filter (selected (delivered_map E w links) feed) links)
             \<and> list_all (\<lambda>l. selected (delivered_map E w links) feed l
                               \<or> drop_log (delivered_map E w links) l \<in> set evs) links)"

definition mainUrl_of :: "ScraperParams option \<Rightarrow> string" where
  "mainUrl_of payload =
     or_default (case payload of None \<Rightarrow> None | Some p \<Rightarrow> main_url p) DEFAULT_MAIN_URL"

definition feedUrl_of :: "ScraperParams option \<Rightarrow> string" where
  "feedUrl_of payload =
     or_default (case payload of None \<Rightarrow> None | Some p \<Rightarrow> feed_url p) DEFAULT_FEED_URL"

text \<open>
  The two fetch steps of a Discovery run, what they return (the listing, and the feed
  mapping when the feed step returns at all) and the world in which the bulk check starts.
\<close>

definition links_step ::
  "env \<Rightarrow> ScraperParams option \<Rightarrow> world \<Rightarrow> (exn + string list) \<times> world" where
  "links_step E payload w = step_do 3 (fetch_article_links E (mainUrl_of payload)) w"

definition feed_step ::
  "env \<Rightarrow> ScraperParams option \<Rightarrow> world \<Rightarrow> (exn + (string \<rightharpoonup> FeedEntry)) \<times> world" where
  "feed_step E payload w =
     step_do 3 (fetch_feed_entries E (feedUrl_of payload)) (snd (links_step E payload w))"

definition listing :: "env \<Rightarrow> ScraperParams option \<Rightarrow> world \<Rightarrow> string list" where
  "listing E payload w = (case fst (links_step E payload w) of Inr links \<Rightarrow> links | Inl e \<Rightarrow> [])"

definition world_at_check :: "env \<Rightarrow> ScraperParams option \<Rightarrow> world \<Rightarrow> world" where
  "world_at_check E payload w = snd (feed_step E payload w)"

definition feed_step_returns :: "env \<Rightarrow> ScraperParams option \<Rightarrow> world \<Rightarrow> bool" where
  "feed_step_returns E payload w =
     (case fst (feed_step E payload w) of Inr entries \<Rightarrow> True | Inl e \<Rightarrow> False)"

definition feed_mapping :: "env \<Rightarrow> ScraperParams option \<Rightarrow> world \<Rightarrow> (string \<rightharpoonup> FeedEntry)" where
  "feed_mapping E payload w =
     (case fst (feed_step E payload w) of Inr entries \<Rightarrow> entries | Inl e \<Rightarrow> Map.empty)"

section \<open>Sample inputs\<close>

text \<open>
  A sample environment and world for the concrete instances below. The clock advances one
  second per effect; the built-ins are tabulated at the arguments the samples use.
\<close>

definition sample_env :: env where
  "sample_env =
     \<lparr>time_at = (\<lambda>n. 1704067200000 + 1000 * int n),
      toISOString = (\<lambda>t. ''2024-01-01T00:00:00.000Z''),
      Date_parse = (\<lambda>s. if s = ''Mon, 01 Jan 2024 00:00:00 GMT'' then Some 1704067200000 else None),
      encodeURI = (\<lambda>s. Some s),
      JSON_stringify = (\<lambda>m. ''{}''),
      generateObject = (\<lambda>n model prompt. GenObject ''Two paragraphs.''),
      ky_post_json = (\<lambda>n req. PostJson True),
      ky_get_text = (\<lambda>n u. if u = ''https://www.myjoyonline.com/'' then Some ''<html>''
                             else if u = ''https://www.myjoyonline.com/feed/'' then Some ''<rss>''
                             else None),
      HTMLRewriter_hrefs = (\<lambda>html. Some [Some ''https://x/a'', Some ''https://x/b'']),
      XMLParser_parse = (\<lambda>xml. Some [\<lparr>item_link = Some ''https://x/a'',
                                        item_title = Some ''A'',
                                        item_pubDate = Some ''Mon, 01 Jan 2024 00:00:00 GMT'',
                                        item_description = Some ''Text of A'',
                                        item_media_content = None\<rparr>]),
      randomUUID = (\<lambda>n i. ''id''),
      clone_drops_prototype = False,
      TELEGRAM_BOT_TOKEN = ''token'',
      TELEGRAM_CHANNEL_ID = ''channel''\<rparr>"

definition sample_article :: Article where
  "sample_article =
     \<lparr>title = ''A'', url = ''https://x/a'', date_published = ''2024-01-01T00:00:00.000Z'',
      content = ''Text of A'', image_url = Some ''https://x/a.jpg''\<rparr>"

definition empty_world :: world where
  "empty_world = \<lparr>kv = Map.empty, trace = []\<rparr>"

definition cached_world :: world where
  "cached_world =
     \<lparr>kv = [''article:https://x/a'' \<mapsto> \<lparr>kv_value = ''{}'', kv_expiration = 1704153600000\<rparr>],
      trace = []\<rparr>"

definition send_fails_env :: env where
  "send_fails_env = sample_env\<lparr>ky_post_json := (\<lambda>n req. PostThrows)\<rparr>"

definition no_summary_env :: env where
  "no_summary_env = sample_env\<lparr>generateObject := (\<lambda>n model prompt. GenThrows)\<rparr>"

definition empty_summary_env :: env where
  "empty_summary_env = sample_env\<lparr>generateObject := (\<lambda>n model prompt. GenObject [])\<rparr>"

definition sample_params :: ProcessorParams where
  "sample_params = \<lparr>article = sample_article, reprocess = None\<rparr>"

definition fallback_env :: env where
  "fallback_env =
     sample_env\<lparr>ky_post_json :=
       (\<lambda>n req. if photo req = fallbackImageUrl then PostJson True else PostThrows)\<rparr>"

definition reprocess_params :: ProcessorParams where
  "reprocess_params = \<lparr>article = sample_article, reprocess = Some True\<rparr>"

definition duplicate_env :: env where
  "duplicate_env =
     sample_env\<lparr>HTMLRewriter_hrefs :=
       (\<lambda>html. Some [Some ''https://x/a'', Some ''https://x/a''])\<rparr>"

definition bad_date_env :: env where
  "bad_date_env =
     sample_env\<lparr>XMLParser_parse :=
       (\<lambda>xml. Some [\<lparr>item_link = Some ''https://x/a'',
                        item_title = Some ''A'',
                        item_pubDate = Some ''not a date'',
                        item_description = Some ''Text of A'',
                        item_media_content = None\<rparr>])\<rparr>"

definition constructor_env :: env where
  "constructor_env = sample_env\<lparr>HTMLRewriter_hrefs := (\<lambda>html. Some [Some ''constructor''])\<rparr>"

definition surrogate_article :: Article where
  "surrogate_article = sample_article\<lparr>image_url := Some [CHR 0xED, CHR 0xA0, CHR 0x80]\<rparr>"

definition surrogate_env :: env where
  "surrogate_env =
     sample_env\<lparr>encodeURI := (\<lambda>s. if s = [CHR 0xED, CHR 0xA0, CHR 0x80] then None else Some s)\<rparr>"

definition surrogate_params :: ProcessorParams where
  "surrogate_params = \<lparr>article = surrogate_article, reprocess = None\<rparr>"

section \<open>Durable steps whose body does not throw run once\<close>

lemma attempts_Inr: "body w = (Inr v, w') \<Longrightarrow> attempts n body w = (Inr v, w')"
  by (cases n) simp_all

lemma attempts_Inl_same: "body w = (Inl e, w) \<Longrightarrow> attempts n body w = (Inl e, w)"
  by (induction n) simp_all

lemma step_do_once:
  assumes "(\<exists>v w'. body w = (Inr v, w')) \<or> (\<exists>e. body w = (Inl e, w))"
  shows "step_do n body w = body w"
  using assms by (auto simp: step_do_def attempts_Inr attempts_Inl_same)

lemma run_events_append [simp]: "trace w' = trace w @ evs \<Longrightarrow> run_events w w' = evs"
  by (simp add: run_events_def)

lemma summarizeArticle_total: "\<exists>r w'. summarizeArticle E text w = (Inr r, w')"
  by (simp add: summarizeArticle_def Let_def split: gen_outcome.splits)

lemma sendTelegramMessage_total: "\<exists>b w'. sendTelegramMessage E t c m i u w = (Inr b, w')"
  by (auto simp add: sendTelegramMessage_def Let_def
        split: option.splits prod.splits post_outcome.splits bool.splits)

lemma step_check_if_processed [simp]:
  "step_do n (check_if_processed E a) w = check_if_processed E a w"
  by (rule step_do_once) (simp add: check_if_processed_def GH_NEWS_CACHE_get_def Let_def)

lemma step_generate_summary [simp]:
  "step_do n (generate_summary E a) w = generate_summary E a w"
  by (rule step_do_once) (simp add: generate_summary_def summarizeArticle_total)

lemma step_create_message [simp]:
  "step_do n (create_message a s) w = create_message a s w"
  by (rule step_do_once) (simp add: create_message_def)

lemma step_send_telegram_message [simp]:
  "step_do n (send_telegram_message E a m) w = send_telegram_message E a m w"
  by (rule step_do_once)
     (use sendTelegramMessage_total in
       \<open>auto simp: send_telegram_message_def Let_def split: option.splits\<close>)

lemma step_mark_as_processed [simp]:
  "step_do n (mark_as_processed E a s) w = mark_as_processed E a s w"
  by (rule step_do_once) (auto simp add: mark_as_processed_def Let_def)

section \<open>The shape of a delivery run\<close>

lemma send_telegram_message_cases:
  assumes "send_telegram_message E a m w = (r, w')"
  shows "kv w' = kv w \<and> (\<exists>evs. trace w' = trace w @ evs
           \<and> (\<forall>e \<in> set evs. is_KyPost e \<or> is_ConsoleLog e \<or> is_ConsoleError e)
           \<and> (case r of
                 Inl e \<Rightarrow> e = URIError \<and> evs = []
               | Inr True \<Rightarrow> (\<exists>pre req. evs = pre @ [KyPost req (PostJson True)])
               | Inr False \<Rightarrow> send_attempted evs \<and> \<not> send_succeeded evs))"
  using assms unfolding send_attempted_def send_succeeded_def
  by (auto simp: send_telegram_message_def sendTelegramMessage_def ky_post_def emit_def Let_def 
        split: option.splits post_outcome.splits bool.splits prod.splits if_splits)

lemma generate_summary_cases:
  "generate_summary E a w =
     (case generateObject E (length (trace w)) ''gemini-2.0-flash'' (summary_prompt (content a)) of
        GenObject s \<Rightarrow> (Inr (Some s), w\<lparr>trace := trace w @ [gen_event a (GenObject s)]\<rparr>)
      | GenThrows \<Rightarrow> (Inr None, w\<lparr>trace := trace w @ [gen_event a GenThrows, ConsoleError ''Summarization failed:'']\<rparr>))"
  by (simp add: generate_summary_def summarizeArticle_def summary_prompt_def gen_event_def emit_def Let_def split: gen_outcome.splits)

lemma ssr_unfold:
  "summarize_send_record E a w =
     (case generateObject E (length (trace w)) ''gemini-2.0-flash'' (summary_prompt (content a)) of
        GenThrows \<Rightarrow>
          (Inl (JsError (''Failed to generate summary for article: '' @ url a)),
           w\<lparr>trace := trace w @ [gen_event a GenThrows, ConsoleError ''Summarization failed:'']\<rparr>)
      | GenObject s \<Rightarrow>
          if s = []
          then (Inl (JsError (''Failed to generate summary for article: '' @ url a)),
                w\<lparr>trace := trace w @ [gen_event a (GenObject s)]\<rparr>)
          else
            (case send_telegram_message E a (message_of a s)
                    (w\<lparr>trace := trace w @ [gen_event a (GenObject s)]\<rparr>) of
               (Inl e, ws) \<Rightarrow> (Inl e, ws)
             | (Inr False, ws) \<Rightarrow>
                 (Inl (JsError (''Failed to send Telegram message for article: '' @ url a)), ws)
             | (Inr True, ws) \<Rightarrow>
                 (Inr (Processed True (url a) (title a) s True
                         (toISOString E (time_at E (Suc (length (trace ws)))))),
                  ws\<lparr>kv := (kv ws)(''article:'' @ url a \<mapsto>
                          \<lparr>kv_value = JSON_stringify E
                              \<lparr>meta_processed_at = toISOString E (now E ws), meta_title = title a,
                               meta_url = url a, meta_summary = s\<rparr>,
                           kv_expiration = now E ws + 86400000\<rparr>),
                      trace := trace ws @ [put_event E a s ws]\<rparr>)))"
  by (simp add: summarize_send_record_def generate_summary_cases truthy_def
        create_message_def message_of_def mark_as_processed_def GH_NEWS_CACHE_put_def
        emit_def Let_def put_event_def now_def Processor_CACHE_KEY_PREFIX_def
        split: gen_outcome.splits sum.splits bool.splits prod.splits)

lemma notifier_event_kinds:
  "is_KyPost e \<or> is_ConsoleLog e \<or> is_ConsoleError e \<Longrightarrow>
     \<not> is_KVPut e \<and> \<not> is_KVGet e \<and> \<not> is_KVGetBulk e \<and> \<not> is_GenerateObject e \<and> \<not> is_CreateBatch e"
  by (cases e) simp_all

lemma no_put_of_kinds:
  "\<forall>e \<in> set evs. is_KyPost e \<or> is_ConsoleLog e \<or> is_ConsoleError e \<Longrightarrow> \<forall>e \<in> set evs. \<not> is_KVPut e"
  using notifier_event_kinds by blast

lemma ssr_cases:
  assumes "summarize_send_record E a w = (r, w')"
  shows "\<exists>g rest. trace w' = trace w @ gen_event a g # rest
     \<and> g = generateObject E (length (trace w)) ''gemini-2.0-flash'' (summary_prompt (content a))
     \<and> (case r of
           Inl e \<Rightarrow> kv w' = kv w \<and> (\<forall>e \<in> set rest. \<not> is_KVPut e)
              \<and> (\<forall>e \<in> set rest. is_KyPost e \<or> is_ConsoleLog e \<or> is_ConsoleError e)
              \<and> (if \<not> usable g
                  then e = JsError (''Failed to generate summary for article: '' @ url a)
                       \<and> (\<forall>e \<in> set rest. \<not> is_KyPost e) \<and> \<not> send_attempted rest
                  else if e = URIError then rest = []
                  else e = JsError (''Failed to send Telegram message for article: '' @ url a)
                       \<and> send_attempted rest \<and> \<not> send_succeeded rest)
         | Inr res \<Rightarrow> (\<exists>s pre req v. g = GenObject s \<and> s \<noteq> []
              \<and> rest = pre @ [KyPost req (PostJson True), KVPut (''article:'' @ url a) v 86400]
              \<and> (\<forall>e \<in> set pre. is_KyPost e \<or> is_ConsoleLog e \<or> is_ConsoleError e)
              \<and> res = Processed True (url a) (title a) s True (toISOString E (now E w'))
              \<and> kv w' = (kv w)(''article:'' @ url a \<mapsto>
                    \<lparr>kv_value = v, kv_expiration = time_at E (length (trace w') - 1) + 86400000\<rparr>)))"
proof (cases "generateObject E (length (trace w)) ''gemini-2.0-flash'' (summary_prompt (content a))")
  case GenThrows
  with assms have "r = Inl (JsError (''Failed to generate summary for article: '' @ url a))"
    and "w' = w\<lparr>trace := trace w @ [gen_event a GenThrows, ConsoleError ''Summarization failed:'']\<rparr>"
    by (simp_all add: ssr_unfold)
  with GenThrows show ?thesis
    by (simp add: usable_def send_attempted_def)
next
  case (GenObject s)
  show ?thesis
  proof (cases "s = []")
    case True
    with GenObject assms have "r = Inl (JsError (''Failed to generate summary for article: '' @ url a))"
      and "w' = w\<lparr>trace := trace w @ [gen_event a (GenObject s)]\<rparr>"
      by (simp_all add: ssr_unfold)
    with GenObject True show ?thesis
      by (simp add: usable_def send_attempted_def)
  next
    case False
    let ?w1 = "w\<lparr>trace := trace w @ [gen_event a (GenObject s)]\<rparr>"
    obtain rs ws where snd: "send_telegram_message E a (message_of a s) ?w1 = (rs, ws)"
      by (cases "send_telegram_message E a (message_of a s) ?w1")
    from send_telegram_message_cases [OF snd] obtain evs where
      kv: "kv ws = kv w" and tr: "trace ws = trace w @ gen_event a (GenObject s) # evs"
      and evs: "\<forall>e \<in> set evs. is_KyPost e \<or> is_ConsoleLog e \<or> is_ConsoleError e"
      and rc: "(case rs of
                 Inl e \<Rightarrow> e = URIError \<and> evs = []
               | Inr True \<Rightarrow> (\<exists>pre req. evs = pre @ [KyPost req (PostJson True)])
               | Inr False \<Rightarrow> send_attempted evs \<and> \<not> send_succeeded evs)"
      by auto
    note noput = no_put_of_kinds [OF evs]
    have us: "usable (GenObject s)" using False by (simp add: usable_def)
    show ?thesis
    proof (cases rs)
      case (Inl e)
      with assms GenObject False snd have "r = Inl e" "w' = ws" by (simp_all add: ssr_unfold)
      moreover from Inl rc have "e = URIError" "evs = []" by simp_all
      ultimately show ?thesis using GenObject us kv tr by simp
    next
      case (Inr b)
      show ?thesis
      proof (cases b)
        case False': False
        with Inr assms GenObject False snd
        have "r = Inl (JsError (''Failed to send Telegram message for article: '' @ url a))" "w' = ws"
          by (simp_all add: ssr_unfold)
        moreover from False' Inr rc have "send_attempted evs" "\<not> send_succeeded evs" by simp_all
        ultimately show ?thesis using GenObject us kv tr evs noput by simp
      next
        case True
        with Inr rc obtain pre req where pre: "evs = pre @ [KyPost req (PostJson True)]" by auto
        with evs have kpre: "\<forall>e \<in> set pre. is_KyPost e \<or> is_ConsoleLog e \<or> is_ConsoleError e" by simp
        from True Inr assms GenObject False snd
        have r: "r = Inr (Processed True (url a) (title a) s True
                         (toISOString E (time_at E (Suc (length (trace ws))))))"
          and w': "w' = ws\<lparr>kv := (kv ws)(''article:'' @ url a \<mapsto>
                          \<lparr>kv_value = JSON_stringify E
                              \<lparr>meta_processed_at = toISOString E (now E ws), meta_title = title a,
                               meta_url = url a, meta_summary = s\<rparr>,
                           kv_expiration = now E ws + 86400000\<rparr>),
                      trace := trace ws @ [put_event E a s ws]\<rparr>"
          by (simp_all add: ssr_unfold)
        have t1: "trace w' = trace w @ gen_event a (GenObject s) # pre @ [KyPost req (PostJson True), put_event E a s ws]"
          using w' tr pre by simp
        have t2: "now E w' = time_at E (Suc (length (trace ws)))"
          using w' by (simp add: now_def)
        have t3: "time_at E (length (trace w') - 1) = now E ws"
          using w' by (simp add: now_def)
        have t4: "kv w' = (kv w)(''article:'' @ url a \<mapsto>
                          \<lparr>kv_value = JSON_stringify E
                              \<lparr>meta_processed_at = toISOString E (now E ws), meta_title = title a,
                               meta_url = url a, meta_summary = s\<rparr>,
                           kv_expiration = now E ws + 86400000\<rparr>)"
          using w' kv by simp
        show ?thesis
          using GenObject False r t1 t2 t3 t4 kpre
          by (simp add: put_event_def)
      qed
    qed
  qed
qed

lemma run_processor_unfold:
  "run_processor E p w =
     (if reprocess p = Some True then summarize_send_record E (article p) w
      else if live_entry E w (url (article p))
      then (Inr (Skipped True True ''Article already processed'' (url (article p))),
            w\<lparr>trace := trace w @ [KVGet (''article:'' @ url (article p))]\<rparr>)
      else summarize_send_record E (article p)
             (w\<lparr>trace := trace w @ [KVGet (''article:'' @ url (article p))]\<rparr>))"
  by (cases "reprocess p")
     (auto simp: run_processor_def check_if_processed_def GH_NEWS_CACHE_get_def emit_def
        live_entry_def Processor_CACHE_KEY_PREFIX_def Let_def)

lemma ssr_outcome:
  assumes "summarize_send_record E a w = (r, w')"
  shows "\<exists>g rest. trace w' = trace w @ gen_event a g # rest
     \<and> g = generateObject E (length (trace w)) ''gemini-2.0-flash'' (summary_prompt (content a))
     \<and> delivery_outcome E a (kv w) r w' g rest"
  unfolding delivery_outcome_def by (rule ssr_cases [OF assms])

lemma send_attempted_simps [simp]:
  "send_attempted [] = False"
  "send_attempted (KVGet k # evs) = send_attempted evs"
  "send_attempted (gen_event a g # evs) = send_attempted evs"
  "send_attempted (xs @ ys) = (send_attempted xs \<or> send_attempted ys)"
  by (auto simp: send_attempted_def gen_event_def)

lemma send_succeeded_simps [simp]:
  "send_succeeded [] = False"
  "send_succeeded (KVGet k # evs) = send_succeeded evs"
  "send_succeeded (gen_event a g # evs) = send_succeeded evs"
  "send_succeeded (xs @ ys) = (send_succeeded xs \<or> send_succeeded ys)"
  "send_succeeded (KyPost req (PostJson True) # evs) = True"
  by (auto simp: send_succeeded_def gen_event_def)

lemma run_shape:
  assumes "run_processor E p w = (r, w')"
  shows "(r = Inr (Skipped True True ''Article already processed'' (url (article p)))
          \<and> reprocess p \<noteq> Some True \<and> live_entry E w (url (article p))
          \<and> run_events w w' = [KVGet (''article:'' @ url (article p))] \<and> kv w' = kv w)
       \<or> (\<exists>chk g rest. run_events w w' = chk @ gen_event (article p) g # rest
            \<and> (chk = [] \<and> reprocess p = Some True
                \<or> chk = [KVGet (''article:'' @ url (article p))] \<and> reprocess p \<noteq> Some True
                   \<and> \<not> live_entry E w (url (article p)))
            \<and> g = generateObject E (length (trace w) + length chk) ''gemini-2.0-flash''
                    (summary_prompt (content (article p)))
            \<and> delivery_outcome E (article p) (kv w) r w' g rest)"
proof (cases "reprocess p = Some True")
  case True
  with assms have "summarize_send_record E (article p) w = (r, w')"
    by (simp add: run_processor_unfold)
  from ssr_outcome [OF this] obtain g rest where
    "trace w' = trace w @ gen_event (article p) g # rest"
    and "g = generateObject E (length (trace w)) ''gemini-2.0-flash'' (summary_prompt (content (article p)))"
    and "delivery_outcome E (article p) (kv w) r w' g rest"
    by blast
  with True have "\<exists>chk g rest. run_events w w' = chk @ gen_event (article p) g # rest
            \<and> (chk = [] \<and> reprocess p = Some True
                \<or> chk = [KVGet (''article:'' @ url (article p))] \<and> reprocess p \<noteq> Some True
                   \<and> \<not> live_entry E w (url (article p)))
            \<and> g = generateObject E (length (trace w) + length chk) ''gemini-2.0-flash''
                    (summary_prompt (content (article p)))
            \<and> delivery_outcome E (article p) (kv w) r w' g rest"
    by (rule_tac x = "[]" in exI, rule_tac x = g in exI, rule_tac x = rest in exI) simp
  then show ?thesis by (rule disjI2)
next
  case False
  show ?thesis
  proof (cases "live_entry E w (url (article p))")
    case True
    with False assms show ?thesis
      by (auto simp: run_processor_unfold)
  next
    case nl: False
    let ?w1 = "w\<lparr>trace := trace w @ [KVGet (''article:'' @ url (article p))]\<rparr>"
    from False nl assms have "summarize_send_record E (article p) ?w1 = (r, w')"
      by (simp add: run_processor_unfold)
    from ssr_outcome [OF this] obtain g rest where
      "trace w' = trace w @ KVGet (''article:'' @ url (article p)) # gen_event (article p) g # rest"
      and "g = generateObject E (Suc (length (trace w))) ''gemini-2.0-flash'' (summary_prompt (content (article p)))"
      and "delivery_outcome E (article p) (kv w) r w' g rest"
      by auto
    with False nl have "\<exists>chk g rest. run_events w w' = chk @ gen_event (article p) g # rest
            \<and> (chk = [] \<and> reprocess p = Some True
                \<or> chk = [KVGet (''article:'' @ url (article p))] \<and> reprocess p \<noteq> Some True
                   \<and> \<not> live_entry E w (url (article p)))
            \<and> g = generateObject E (length (trace w) + length chk) ''gemini-2.0-flash''
                    (summary_prompt (content (article p)))
            \<and> delivery_outcome E (article p) (kv w) r w' g rest"
      by (rule_tac x = "[KVGet (''article:'' @ url (article p))]" in exI,
          rule_tac x = g in exI, rule_tac x = rest in exI) simp
    then show ?thesis by (rule disjI2)
  qed
qed

lemma run_cases [consumes 1, case_names skipped delivered]:
  assumes "run_processor E p w = (r, w')"
  obtains
    (skipped) "r = Inr (Skipped True True ''Article already processed'' (url (article p)))"
      "reprocess p \<noteq> Some True" "live_entry E w (url (article p))"
      "run_events w w' = [KVGet (''article:'' @ url (article p))]" "kv w' = kv w"
  | (delivered) chk g rest where "run_events w w' = chk @ gen_event (article p) g # rest"
      "chk = [] \<and> reprocess p = Some True \<or>
       chk = [KVGet (''article:'' @ url (article p))] \<and> reprocess p \<noteq> Some True \<and>
       \<not> live_entry E w (url (article p))"
      "g = generateObject E (length (trace w) + length chk) ''gemini-2.0-flash''
             (summary_prompt (content (article p)))"
      "delivery_outcome E (article p) (kv w) r w' g rest"
  using run_shape [OF assms] by blast

lemma gen_event_kinds [simp]:
  "\<not> is_KVPut (gen_event a g)" "\<not> is_KyPost (gen_event a g)"
  "is_GenerateObject (gen_event a g)" "\<not> is_KVGet (gen_event a g)"
  "\<not> is_KVGetBulk (gen_event a g)"
  by (simp_all add: gen_event_def)

lemma delivery_outcome_kinds:
  assumes "delivery_outcome E a store r w' g rest"
  shows "\<forall>e \<in> set rest. \<not> is_GenerateObject e \<and> \<not> is_KVGet e \<and> \<not> is_KVGetBulk e"
proof (cases r)
  case (Inl e)
  with assms have "\<forall>e \<in> set rest. is_KyPost e \<or> is_ConsoleLog e \<or> is_ConsoleError e"
    by (simp add: delivery_outcome_def)
  then show ?thesis using notifier_event_kinds by blast
next
  case (Inr res)
  with assms obtain pre req v where
    rest: "rest = pre @ [KyPost req (PostJson True), KVPut (''article:'' @ url a) v 86400]"
    and pre: "\<forall>e \<in> set pre. is_KyPost e \<or> is_ConsoleLog e \<or> is_ConsoleError e"
    by (auto simp: delivery_outcome_def)
  from pre have "\<forall>e \<in> set pre. \<not> is_GenerateObject e \<and> \<not> is_KVGet e \<and> \<not> is_KVGetBulk e"
    using notifier_event_kinds by blast
  then show ?thesis using rest by auto
qed

lemma outcome_errors:
  assumes out: "delivery_outcome E a store r' w' g rest"
  shows "\<forall>e. r' = Inl e \<longrightarrow>
             e = JsError (''Failed to generate summary for article: '' @ url a)
             \<or> e = URIError
             \<or> e = JsError (''Failed to send Telegram message for article: '' @ url a)"
  using out by (auto simp: delivery_outcome_def split: if_splits)

lemma outcome_summary_error:
  assumes out: "delivery_outcome E a store r' w' g rest"
  shows "r' = Inl (JsError (''Failed to generate summary for article: '' @ url a))
            \<longleftrightarrow> \<not> usable g"
  using out by (cases r') (auto simp: delivery_outcome_def usable_def split: if_splits)

lemma only_gen_event:
  assumes  mem: "\<And>model prompt g'. GenerateObject model prompt g' \<in> set evs \<longleftrightarrow>
                 GenerateObject model prompt g' = gen_event a g"
  shows "(\<exists>model prompt g'. GenerateObject model prompt g' \<in> set evs \<and> \<not> usable g') \<longleftrightarrow> \<not> usable g"
  unfolding mem by (auto simp: gen_event_def)

lemma send_telegram_message_kv:
  "send_telegram_message E a m (w\<lparr>kv := store\<rparr>) =
     (case send_telegram_message E a m w of (r, w') \<Rightarrow> (r, w'\<lparr>kv := store\<rparr>))"
  by (simp add: send_telegram_message_def sendTelegramMessage_def ky_post_def emit_def Let_def
        split: option.splits post_outcome.splits bool.splits prod.splits)

lemma ssr_kv:
  "fst (summarize_send_record E a (w\<lparr>kv := store\<rparr>)) = fst (summarize_send_record E a w)
   \<and> trace (snd (summarize_send_record E a (w\<lparr>kv := store\<rparr>))) =
       trace (snd (summarize_send_record E a w))"
proof (cases "generateObject E (length (trace w)) ''gemini-2.0-flash'' (summary_prompt (content a))")
  case GenThrows
  then show ?thesis by (simp add: ssr_unfold)
next
  case (GenObject s)
  show ?thesis
  proof (cases "s = []")
    case True
    with GenObject show ?thesis by (simp add: ssr_unfold)
  next
    case False
    let ?w1 = "w\<lparr>trace := trace w @ [gen_event a (GenObject s)]\<rparr>"
    obtain rs ws where snd: "send_telegram_message E a (message_of a s) ?w1 = (rs, ws)"
      by (cases "send_telegram_message E a (message_of a s) ?w1")
    have A: "send_telegram_message E a (message_of a s) (?w1\<lparr>kv := store\<rparr>) = (rs, ws\<lparr>kv := store\<rparr>)"
      by (simp add: send_telegram_message_kv snd)
    have eq: "w\<lparr>kv := store, trace := trace w @ [gen_event a (GenObject s)]\<rparr> =
                   ?w1\<lparr>kv := store\<rparr>"
      by (rule world.equality) simp_all
    have snd': "send_telegram_message E a (message_of a s)
             (w\<lparr>kv := store, trace := trace w @ [gen_event a (GenObject s)]\<rparr>) = (rs, ws\<lparr>kv := store\<rparr>)"
      unfolding eq by (rule A)
    show ?thesis
      using GenObject False snd snd'
      by (cases rs) (simp_all add: ssr_unfold put_event_def now_def split: bool.splits)
  qed
qed

lemma send_telegram_message_entry:
  assumes "send_telegram_message E a m w = (rs, ws)"
  shows "\<exists>evs. trace ws = trace w @ evs
     \<and> (case encodeURI E (or_default (image_url a) fallbackImageUrl) of
           None \<Rightarrow> rs = Inl URIError \<and> evs = []
         | Some enc \<Rightarrow>
             (\<exists>b. rs = Inr b) \<and> send_attempted evs
             \<and> (case encodeURI E enc of
                   None \<Rightarrow> evs = [ConsoleError ''Error sending Telegram message:'']
                 | Some enc2 \<Rightarrow>
                     \<exists>out rest'. evs =
                        KyPost (sendPhoto_request (TELEGRAM_BOT_TOKEN E) (TELEGRAM_CHANNEL_ID E)
                                  m enc2 (url a) 2) out # rest'))"
proof (cases "encodeURI E (or_default (image_url a) fallbackImageUrl)")
  case None
  with assms show ?thesis by (simp add: send_telegram_message_def Let_def)
next
  case (Some enc)
  show ?thesis
  proof (cases "encodeURI E enc")
    case None
    with Some assms show ?thesis
      by (auto simp: send_telegram_message_def sendTelegramMessage_def emit_def Let_def
            send_attempted_def)
  next
    case (Some enc2)
    let ?req = "sendPhoto_request (TELEGRAM_BOT_TOKEN E) (TELEGRAM_CHANNEL_ID E) m enc2 (url a) 2"
    from Some \<open>encodeURI E (or_default (image_url a) fallbackImageUrl) = Some enc\<close> assms
    have "\<exists>b out rest'. rs = Inr b \<and> trace ws = trace w @ KyPost ?req out # rest'"
      by (auto simp: send_telegram_message_def sendTelegramMessage_def ky_post_def emit_def
            Let_def split: post_outcome.splits bool.splits prod.splits)
    then obtain b out rest' where "rs = Inr b" "trace ws = trace w @ KyPost ?req out # rest'"
      by blast
    moreover have "send_attempted (KyPost ?req out # rest')" by (simp add: send_attempted_def)
    ultimately show ?thesis
      using Some \<open>encodeURI E (or_default (image_url a) fallbackImageUrl) = Some enc\<close> by auto
  qed
qed

lemma ssr_entry:
  assumes "summarize_send_record E a w = (r, w')"
  shows "\<exists>rest. trace w' = trace w @ gen_event a (generateObject E (length (trace w))
                     ''gemini-2.0-flash'' (summary_prompt (content a))) # rest
           \<and> send_step_entry E a (generateObject E (length (trace w))
                     ''gemini-2.0-flash'' (summary_prompt (content a))) r rest"
proof (cases "generateObject E (length (trace w)) ''gemini-2.0-flash'' (summary_prompt (content a))")
  case GenThrows
  with assms show ?thesis by (auto simp: ssr_unfold send_step_entry_def)
next
  case (GenObject s)
  show ?thesis
  proof (cases "s = []")
    case True
    with GenObject assms show ?thesis by (auto simp: ssr_unfold send_step_entry_def)
  next
    case False
    let ?w1 = "w\<lparr>trace := trace w @ [gen_event a (GenObject s)]\<rparr>"
    obtain rs ws where snd: "send_telegram_message E a (message_of a s) ?w1 = (rs, ws)"
      by (cases "send_telegram_message E a (message_of a s) ?w1")
    from send_telegram_message_entry [OF snd] obtain evs where
      tr: "trace ws = trace w @ gen_event a (GenObject s) # evs"
      and en: "(case encodeURI E (or_default (image_url a) fallbackImageUrl) of
           None \<Rightarrow> rs = Inl URIError \<and> evs = []
         | Some enc \<Rightarrow>
             (\<exists>b. rs = Inr b) \<and> send_attempted evs
             \<and> (case encodeURI E enc of
                   None \<Rightarrow> evs = [ConsoleError ''Error sending Telegram message:'']
                 | Some enc2 \<Rightarrow>
                     \<exists>out rest'. evs =
                        KyPost (sendPhoto_request (TELEGRAM_BOT_TOKEN E) (TELEGRAM_CHANNEL_ID E)
                                  (message_of a s) enc2 (url a) 2) out # rest'))"
      by auto
    show ?thesis
    proof (cases "encodeURI E (or_default (image_url a) fallbackImageUrl)")
      case None
      with en have "rs = Inl URIError" "evs = []" by simp_all
      with assms GenObject False snd tr have "r = Inl URIError" "trace w' = trace w @ [gen_event a (GenObject s)]"
        by (simp_all add: ssr_unfold)
      with GenObject None show ?thesis by (simp add: send_step_entry_def)
    next
      case (Some enc)
      with en obtain b where rs: "rs = Inr b" and sa: "send_attempted evs"
        and inner: "(case encodeURI E enc of
                   None \<Rightarrow> evs = [ConsoleError ''Error sending Telegram message:'']
                 | Some enc2 \<Rightarrow>
                     \<exists>out rest'. evs =
                        KyPost (sendPhoto_request (TELEGRAM_BOT_TOKEN E) (TELEGRAM_CHANNEL_ID E)
                                  (message_of a s) enc2 (url a) 2) out # rest')"
        by auto
      show ?thesis
      proof (cases b)
        case bF: False
        with rs assms GenObject False snd tr
        have "r = Inl (JsError (''Failed to send Telegram message for article: '' @ url a))"
          "trace w' = trace w @ gen_event a (GenObject s) # evs"
          by (simp_all add: ssr_unfold)
        with GenObject Some sa inner show ?thesis by (simp add: send_step_entry_def)
      next
        case True
        from send_telegram_message_cases [OF snd] rs True
        obtain pre req evs0 where "trace ws = trace ?w1 @ evs0" "evs0 = pre @ [KyPost req (PostJson True)]"
          by auto
        with tr have ne: "evs = pre @ [KyPost req (PostJson True)]" by simp
        from True rs assms GenObject False snd tr
        have r: "\<exists>res. r = Inr res"
          and t: "trace w' = trace w @ gen_event a (GenObject s) # (evs @ [put_event E a s ws])"
          by (auto simp: ssr_unfold)
        have "case encodeURI E enc of
                   None \<Rightarrow> evs @ [put_event E a s ws] = [ConsoleError ''Error sending Telegram message:'']
                 | Some enc2 \<Rightarrow>
                     \<exists>out rest'. evs @ [put_event E a s ws] =
                        KyPost (sendPhoto_request (TELEGRAM_BOT_TOKEN E) (TELEGRAM_CHANNEL_ID E)
                                  (message_of a s) enc2 (url a) 2) out # rest'"
        proof (cases "encodeURI E enc")
          case None
          from ne have "last evs = KyPost req (PostJson True)" by simp
          with None inner show ?thesis by simp
        next
          case (Some enc2)
          with inner obtain out rest' where
            "evs = KyPost (sendPhoto_request (TELEGRAM_BOT_TOKEN E) (TELEGRAM_CHANNEL_ID E)
                             (message_of a s) enc2 (url a) 2) out # rest'"
            by auto
          with Some show ?thesis by simp
        qed
        with GenObject Some sa r t show ?thesis
          by (auto simp: send_step_entry_def)
      qed
    qed
  qed
qed

lemma run_shape_entry:
  assumes "run_processor E p w = (r, w')"
  shows "(r = Inr (Skipped True True ''Article already processed'' (url (article p)))
          \<and> reprocess p \<noteq> Some True \<and> live_entry E w (url (article p))
          \<and> run_events w w' = [KVGet (''article:'' @ url (article p))] \<and> kv w' = kv w)
       \<or> (\<exists>chk g rest. run_events w w' = chk @ gen_event (article p) g # rest
            \<and> (chk = [] \<and> reprocess p = Some True
                \<or> chk = [KVGet (''article:'' @ url (article p))] \<and> reprocess p \<noteq> Some True
                   \<and> \<not> live_entry E w (url (article p)))
            \<and> g = generateObject E (length (trace w) + length chk) ''gemini-2.0-flash''
                    (summary_prompt (content (article p)))
            \<and> delivery_outcome E (article p) (kv w) r w' g rest
            \<and> send_step_entry E (article p) g r rest)"
proof (cases "reprocess p = Some True")
  case True
  with assms have ssr: "summarize_send_record E (article p) w = (r, w')"
    by (simp add: run_processor_unfold)
  from ssr_outcome [OF ssr] obtain g rest where
    t: "trace w' = trace w @ gen_event (article p) g # rest"
    and g: "g = generateObject E (length (trace w)) ''gemini-2.0-flash'' (summary_prompt (content (article p)))"
    and out: "delivery_outcome E (article p) (kv w) r w' g rest"
    by blast
  from ssr_entry [OF ssr] t g have en: "send_step_entry E (article p) g r rest" by auto
  from True t g out en
  have "\<exists>chk g rest. run_events w w' = chk @ gen_event (article p) g # rest
            \<and> (chk = [] \<and> reprocess p = Some True
                \<or> chk = [KVGet (''article:'' @ url (article p))] \<and> reprocess p \<noteq> Some True
                   \<and> \<not> live_entry E w (url (article p)))
            \<and> g = generateObject E (length (trace w) + length chk) ''gemini-2.0-flash''
                    (summary_prompt (content (article p)))
            \<and> delivery_outcome E (article p) (kv w) r w' g rest
            \<and> send_step_entry E (article p) g r rest"
    by (rule_tac x = "[]" in exI, rule_tac x = g in exI, rule_tac x = rest in exI) simp
  then show ?thesis by (rule disjI2)
next
  case False
  show ?thesis
  proof (cases "live_entry E w (url (article p))")
    case True
    with False assms show ?thesis
      by (auto simp: run_processor_unfold)
  next
    case nl: False
    let ?w1 = "w\<lparr>trace := trace w @ [KVGet (''article:'' @ url (article p))]\<rparr>"
    from False nl assms have ssr: "summarize_send_record E (article p) ?w1 = (r, w')"
      by (simp add: run_processor_unfold)
    from ssr_outcome [OF ssr] obtain g rest where
      t: "trace w' = trace w @ KVGet (''article:'' @ url (article p)) # gen_event (article p) g # rest"
      and g: "g = generateObject E (Suc (length (trace w))) ''gemini-2.0-flash'' (summary_prompt (content (article p)))"
      and out: "delivery_outcome E (article p) (kv w) r w' g rest"
      by auto
    from ssr_entry [OF ssr] t g have en: "send_step_entry E (article p) g r rest" by auto
    from False nl t g out en
    have "\<exists>chk g rest. run_events w w' = chk @ gen_event (article p) g # rest
            \<and> (chk = [] \<and> reprocess p = Some True
                \<or> chk = [KVGet (''article:'' @ url (article p))] \<and> reprocess p \<noteq> Some True
                   \<and> \<not> live_entry E w (url (article p)))
            \<and> g = generateObject E (length (trace w) + length chk) ''gemini-2.0-flash''
                    (summary_prompt (content (article p)))
            \<and> delivery_outcome E (article p) (kv w) r w' g rest
            \<and> send_step_entry E (article p) g r rest"
      by (rule_tac x = "[KVGet (''article:'' @ url (article p))]" in exI,
          rule_tac x = g in exI, rule_tac x = rest in exI) simp
    then show ?thesis by (rule disjI2)
  qed
qed

lemma run_cases_entry [consumes 1, case_names skipped delivered]:
  assumes "run_processor E p w = (r, w')"
  obtains
    (skipped) "r = Inr (Skipped True True ''Article already processed'' (url (article p)))"
      "reprocess p \<noteq> Some True" "live_entry E w (url (article p))"
      "run_events w w' = [KVGet (''article:'' @ url (article p))]" "kv w' = kv w"
  | (delivered) chk g rest where "run_events w w' = chk @ gen_event (article p) g # rest"
      "chk = [] \<and> reprocess p = Some True \<or>
       chk = [KVGet (''article:'' @ url (article p))] \<and> reprocess p \<noteq> Some True \<and>
       \<not> live_entry E w (url (article p))"
      "g = generateObject E (length (trace w) + length chk) ''gemini-2.0-flash''
             (summary_prompt (content (article p)))"
      "delivery_outcome E (article p) (kv w) r w' g rest"
      "send_step_entry E (article p) g r rest"
  using run_shape_entry [OF assms] by blast


section \<open>The sample runs\<close>

lemmas sample_defs = sample_env_def send_fails_env_def no_summary_env_def empty_summary_env_def
  fallback_env_def sample_params_def reprocess_params_def sample_article_def empty_world_def
  cached_world_def surrogate_article_def surrogate_env_def surrogate_params_def

lemmas eval_defs = run_processor_unfold ssr_unfold send_telegram_message_def
  sendTelegramMessage_def ky_post_def emit_def live_entry_def kv_lookup_def now_def
  or_default_def truthy_def sendPhoto_request_def fallbackImageUrl_def summary_prompt_def
  message_of_def gen_event_def put_event_def run_events_def Let_def


lemma sample_no_summary:
  "fst (run_processor no_summary_env sample_params empty_world) =
     Inl (JsError ''Failed to generate summary for article: https://x/a'')"
  "GenerateObject ''gemini-2.0-flash'' (summary_prompt ''Text of A'') GenThrows
     \<in> set (run_events empty_world (snd (run_processor no_summary_env sample_params empty_world)))"
  by (simp_all add: eval_defs sample_defs)


text \<open>
  An empty summary string is not \<open>null\<close>, but \<open>!summary\<close> holds for it as well: the run
  ends in the same fatal error.
\<close>

lemma empty_summary_is_fatal:
  "fst (summarizeArticle empty_summary_env ''Text of A'' empty_world) = Inr (Some [])"
  "fst (run_processor empty_summary_env sample_params empty_world) =
     Inl (JsError ''Failed to generate summary for article: https://x/a'')"
  by (simp_all add: eval_defs sample_defs summarizeArticle_def)

lemma sample_reprocess:
  "send_succeeded (run_events cached_world
     (snd (run_processor sample_env reprocess_params cached_world)))"
  by (simp add: eval_defs sample_defs send_succeeded_def)


section \<open>The bulk check of Discovery\<close>

lemma fold_processed:
  "fold (\<lambda>link processed. js_set_primitive processed link (f link)) links m x =
     (if x \<in> set links \<and> x \<noteq> ''__proto__'' then Some (f x) else m x)"
  by (induction links arbitrary: m) (auto simp: js_set_primitive_def)

lemma check_processed_articles_result:
  assumes "length links \<le> 100"
  shows "\<exists>processed. check_processed_articles E links w =
           (Inr processed,
            if links = [] then w else emit (KVGetBulk (map (\<lambda>l. ''article:'' @ l) links)) w)
         \<and> (\<forall>l. processed l =
                (if l \<in> set links \<and> l \<noteq> ''__proto__'' then Some (live_entry E w l) else None))"
proof (cases "links = []")
  case True
  then show ?thesis by (simp add: check_processed_articles_def)
next
  case False
  have "\<And>l. l \<in> set links \<Longrightarrow> ''article:'' @ l \<in> (\<lambda>l. ''article:'' @ l) ` set links"
    by blast
  with False assms show ?thesis
    by (simp add: check_processed_articles_def GH_NEWS_CACHE_get_bulk_def kv_bulk_limit_def
          Scraper_CACHE_KEY_PREFIX_def Let_def fold_processed live_entry_def)
qed

lemma marked_delivered_map:
  "marked (delivered_map E w links) l =
     (if l \<in> set links \<and> l \<noteq> ''__proto__'' then live_entry E w l
      else l \<in> set Object_prototype_names)"
  by (simp add: marked_def js_get_def delivered_map_def)

section \<open>Delivery: the idempotency check\<close>

text \<open>
  C1. When the article's URL has a live cache entry at the time of the check and
  \<open>reprocess\<close> is false or missing, the run returns exactly
  \<open>{success: true, skipped: true, reason: 'Article already processed', url}\<close>; its only
  effect is the single cache read, so the summarizer and the notifier are not called and
  the cache is left as it was.
\<close>

theorem skip_when_cached:
  assumes "live_entry E w (url (article p))" and "reprocess p \<noteq> Some True"
  shows "fst (run_processor E p w) =
           Inr (Skipped True True ''Article already processed'' (url (article p)))
       \<and> run_events w (snd (run_processor E p w)) = [KVGet (''article:'' @ url (article p))]
       \<and> kv (snd (run_processor E p w)) = kv w"
  using assms
  by (cases "reprocess p")
     (auto simp: run_processor_def check_if_processed_def GH_NEWS_CACHE_get_def emit_def
        live_entry_def Processor_CACHE_KEY_PREFIX_def Let_def)

theorem skip_when_cached_witness:
  "live_entry sample_env cached_world ''https://x/a''
   \<and> fst (run_processor sample_env \<lparr>article = sample_article, reprocess = None\<rparr> cached_world) =
       Inr (Skipped True True ''Article already processed'' ''https://x/a'')
   \<and> run_events cached_world
        (snd (run_processor sample_env \<lparr>article = sample_article, reprocess = None\<rparr> cached_world)) =
       [KVGet ''article:https://x/a'']"
proof -
  have h: "live_entry sample_env cached_world (url (article \<lparr>article = sample_article, reprocess = None\<rparr>))"
    by (simp add: live_entry_def kv_lookup_def now_def sample_env_def cached_world_def
          sample_article_def)
  have u: "url (article \<lparr>article = sample_article, reprocess = None\<rparr>) = ''https://x/a''"
    by (simp add: sample_article_def)
  show ?thesis
    using h skip_when_cached [OF h] u by simp
qed

section \<open>Delivery: recording after the send\<close>




section \<open>Delivery: no usable summary\<close>

text \<open>
  C5. A run in which the summarizer yields no usable summary (the model call threw, so
  \<open>summarizeArticle\<close> returned \<open>null\<close>, or the summary is empty) ends with the fatal error
  naming the article URL. The model was called exactly once, no notification post was made
  and the cache was neither written nor changed: there is no fallback path.
\<close>

theorem no_summary_is_fatal:
  fixes E p w
  defines "r \<equiv> run_processor E p w"
  defines "evs \<equiv> run_events w (snd r)"
  assumes null: "\<exists>model prompt g. GenerateObject model prompt g \<in> set evs \<and> \<not> usable g"
  shows "fst r = Inl (JsError (''Failed to generate summary for article: '' @ url (article p)))
       \<and> (\<forall>e \<in> set evs. \<not> is_KyPost e \<and> \<not> is_KVPut e)
       \<and> kv (snd r) = kv w
       \<and> length (filter is_GenerateObject evs) = 1"
proof -
  obtain r' w' where run: "run_processor E p w = (r', w')" by (cases "run_processor E p w")
  have r: "fst r = r'" and evs: "evs = run_events w w'" and w': "snd r = w'"
    using run by (simp_all add: r_def evs_def)
  from run show ?thesis
  proof (cases rule: run_cases)
    case skipped
    with null evs show ?thesis by simp
  next
    case (delivered chk g rest)
    note ev = delivered(1) and chk = delivered(2) and out = delivered(4)
    from chk have ck: "\<forall>e \<in> set chk. \<not> is_KVPut e \<and> \<not> is_KyPost e \<and> \<not> is_GenerateObject e"
      by auto
    have rk: "\<forall>e \<in> set rest. \<not> is_GenerateObject e"
      using delivery_outcome_kinds [OF out] by blast
    from null obtain model prompt g' where
      g': "GenerateObject model prompt g' \<in> set evs" "\<not> usable g'" by blast
    have "GenerateObject model prompt g' = gen_event (article p) g"
      using g'(1) ck rk ev evs by auto
    then have ng: "\<not> usable g" using g'(2) by (simp add: gen_event_def)
    have notInr: "\<And>res. r' \<noteq> Inr res"
      using out ng by (auto simp: delivery_outcome_def usable_def)
    then obtain e where Inl: "r' = Inl e" by (cases r') auto
    with out ng have kv: "kv w' = kv w" and np: "\<forall>e \<in> set rest. \<not> is_KVPut e"
        and e: "e = JsError (''Failed to generate summary for article: '' @ url (article p))"
        and nk: "\<forall>e \<in> set rest. \<not> is_KyPost e"
      by (auto simp: delivery_outcome_def)
    have "filter is_GenerateObject evs = [gen_event (article p) g]"
      using ck rk ev evs by (simp add: filter_empty_conv)
    then show ?thesis using Inl e r w' kv np nk ck ev evs by auto
  qed
qed

theorem no_summary_is_fatal_witness:
  "fst (run_processor no_summary_env sample_params empty_world) =
     Inl (JsError ''Failed to generate summary for article: https://x/a'')
   \<and> filter is_KyPost (run_events empty_world
                    (snd (run_processor no_summary_env sample_params empty_world))) = []
   \<and> filter is_KVPut (run_events empty_world
                    (snd (run_processor no_summary_env sample_params empty_world))) = []"
proof -
  have h: "\<exists>model prompt g.
             GenerateObject model prompt g
               \<in> set (run_events empty_world
                        (snd (run_processor no_summary_env sample_params empty_world)))
             \<and> \<not> usable g"
    using sample_no_summary(2) by (intro exI [of _ GenThrows] exI conjI) (simp_all add: usable_def)
  have u: "url (article sample_params) = ''https://x/a''"
    by (simp add: sample_params_def sample_article_def)
  from no_summary_is_fatal [where E = no_summary_env and p = sample_params and w = empty_world, OF h]
  show ?thesis using u by (simp add: filter_empty_conv)
qed

section \<open>Delivery: the error channel of the summarizer\<close>

text \<open>
  C10. \<open>summarizeArticle\<close> always returns: a throwing model call gives \<open>null\<close>, a returning
  one gives its summary. So the body of the \<open>generate_summary\<close> step completes on its first
  attempt, the step is never retried (a run calls the model at most once), and a run fails
  for want of a summary only through the orchestrator's own fatal error, which is thrown
  exactly when the summarizer's result is unusable. The other two failures of a run belong
  to the send step.
\<close>

theorem summarizeArticle_never_raises:
  fixes E p w
  defines "r \<equiv> run_processor E p w"
  defines "evs \<equiv> run_events w (snd r)"
  shows "(\<exists>v w1. summarizeArticle E body w = (Inr v, w1))
       \<and> (generateObject E (length (trace w)) ''gemini-2.0-flash'' (summary_prompt body) = GenThrows
            \<longrightarrow> fst (summarizeArticle E body w) = Inr None)
       \<and> (\<forall>s. generateObject E (length (trace w)) ''gemini-2.0-flash'' (summary_prompt body) = GenObject s
            \<longrightarrow> fst (summarizeArticle E body w) = Inr (Some s))
       \<and> step_do 3 (generate_summary E a) w = generate_summary E a w
       \<and> length (filter is_GenerateObject evs) \<le> 1
       \<and> (\<forall>e. fst r = Inl e \<longrightarrow>
             e = JsError (''Failed to generate summary for article: '' @ url (article p))
             \<or> e = URIError
             \<or> e = JsError (''Failed to send Telegram message for article: '' @ url (article p)))
       \<and> (fst r = Inl (JsError (''Failed to generate summary for article: '' @ url (article p)))
            \<longleftrightarrow> (\<exists>model prompt g. GenerateObject model prompt g \<in> set evs \<and> \<not> usable g))"
proof -
  have s1: "\<exists>v w1. summarizeArticle E body w = (Inr v, w1)" by (rule summarizeArticle_total)
  have s2: "generateObject E (length (trace w)) ''gemini-2.0-flash'' (summary_prompt body) = GenThrows
            \<longrightarrow> fst (summarizeArticle E body w) = Inr None"
    by (simp add: summarizeArticle_def summary_prompt_def Let_def)
  have s3: "\<forall>s. generateObject E (length (trace w)) ''gemini-2.0-flash'' (summary_prompt body) = GenObject s
            \<longrightarrow> fst (summarizeArticle E body w) = Inr (Some s)"
    by (simp add: summarizeArticle_def summary_prompt_def Let_def)
  have s4: "step_do 3 (generate_summary E a) w = generate_summary E a w" by simp
  obtain r' w' where run: "run_processor E p w = (r', w')" by (cases "run_processor E p w")
  have r: "fst r = r'" and evs: "evs = run_events w w'" and w': "snd r = w'"
    using run by (simp_all add: r_def evs_def)
  from run have "length (filter is_GenerateObject evs) \<le> 1
       \<and> (\<forall>e. r' = Inl e \<longrightarrow>
             e = JsError (''Failed to generate summary for article: '' @ url (article p))
             \<or> e = URIError
             \<or> e = JsError (''Failed to send Telegram message for article: '' @ url (article p)))
       \<and> (r' = Inl (JsError (''Failed to generate summary for article: '' @ url (article p)))
            \<longleftrightarrow> (\<exists>model prompt g. GenerateObject model prompt g \<in> set evs \<and> \<not> usable g))"
  proof (cases rule: run_cases)
    case skipped
    with evs show ?thesis by simp
  next
    case (delivered chk g rest)
    note ev = delivered(1) and chk = delivered(2) and out = delivered(4)
    from chk have ck: "\<forall>e \<in> set chk. \<not> is_GenerateObject e" by auto
    have rk: "\<forall>e \<in> set rest. \<not> is_GenerateObject e"
      using delivery_outcome_kinds [OF out] by blast
    have f: "filter is_GenerateObject evs = [gen_event (article p) g]"
      using ck rk ev evs by (simp add: filter_empty_conv)
    have mem: "GenerateObject model prompt g' \<in> set evs \<longleftrightarrow>
                 GenerateObject model prompt g' = gen_event (article p) g" for model prompt g'
    proof -
      have "GenerateObject model prompt g' \<in> set evs \<longleftrightarrow>
            GenerateObject model prompt g' \<in> set (filter is_GenerateObject evs)" by simp
      then show ?thesis unfolding f by simp
    qed
    note ex = only_gen_event [OF mem]
    note errs = outcome_errors [OF out]
    note iff = outcome_summary_error [OF out]
    from f have f': "length (filter is_GenerateObject evs) \<le> 1" by simp
    show ?thesis unfolding ex using f' errs iff by (intro conjI)
  qed
  then show ?thesis using s1 s2 s3 s4 unfolding r by (elim conjE, intro conjI) assumption+
qed

theorem summarizeArticle_never_raises_witness:
  "fst (summarizeArticle no_summary_env ''Text of A'' empty_world) = Inr None
   \<and> fst (run_processor no_summary_env sample_params empty_world) =
       Inl (JsError ''Failed to generate summary for article: https://x/a'')"
proof -
  note inst = summarizeArticle_never_raises
    [where E = no_summary_env and p = sample_params and w = empty_world
       and body = "''Text of A''" and a = sample_article]
  have g: "generateObject no_summary_env (length (trace empty_world)) ''gemini-2.0-flash''
             (summary_prompt ''Text of A'') = GenThrows"
    by (simp add: no_summary_env_def)
  have h: "\<exists>model prompt g.
             GenerateObject model prompt g
               \<in> set (run_events empty_world
                        (snd (run_processor no_summary_env sample_params empty_world)))
             \<and> \<not> usable g"
    using sample_no_summary(2) by (intro exI [of _ GenThrows] exI conjI) (simp_all add: usable_def)
  have u: "url (article sample_params) = ''https://x/a''"
    by (simp add: sample_params_def sample_article_def)
  from inst g have "fst (summarizeArticle no_summary_env ''Text of A'' empty_world) = Inr None"
    by blast
  moreover from inst h
  have "fst (run_processor no_summary_env sample_params empty_world) =
          Inl (JsError (''Failed to generate summary for article: '' @ url (article sample_params)))"
    by blast
  ultimately show ?thesis using u by simp
qed

section \<open>Delivery: the reprocess override\<close>

text \<open>
  C8. With \<open>reprocess = true\<close> the run is steps 2 to 5 and nothing else: it reads the cache
  at no point, its first effect is the summarizer's model call, and its result and effects
  are the same whatever the cache holds. When the summary is usable and the image reference
  can be encoded, the send is attempted, and (the second encoding inside
  \<open>sendTelegramMessage\<close> succeeding too) the effect that follows the model call is the post
  to the notifier of the message composed from the title and that summary, with the encoded
  image and the article URL. The run returns a result exactly when the summary is usable
  and a post returned success; it then ends by recording the delivery under the key
  \<open>article:\<close> + URL and its result carries the URL, the title and the summary. In every
  other case it fails: with the summary error when the summary is not usable, with the
  send error when the send was attempted and no post succeeded.
\<close>

theorem reprocess_skips_the_check:
  fixes E p w store
  defines "r \<equiv> run_processor E p w"
  defines "evs \<equiv> run_events w (snd r)"
  defines "r' \<equiv> run_processor E p (w\<lparr>kv := store\<rparr>)"
  assumes re: "reprocess p = Some True"
  shows "r = summarize_send_record E (article p) w
       \<and> filter is_KVGet evs = [] \<and> filter is_KVGetBulk evs = []
       \<and> (\<exists>rest. evs = gen_event (article p)
              (generateObject E (length (trace w)) ''gemini-2.0-flash''
                 (summary_prompt (content (article p)))) # rest)
       \<and> fst r' = fst r
       \<and> run_events (w\<lparr>kv := store\<rparr>) (snd r') = evs
       \<and> (usable (generateObject E (length (trace w)) ''gemini-2.0-flash''
                    (summary_prompt (content (article p)))) \<and> send_succeeded evs
            \<longrightarrow> (\<exists>res v. fst r = Inr res
                   \<and> last evs = KVPut (''article:'' @ url (article p)) v 86400))
       \<and> (\<forall>s enc enc2.
             generateObject E (length (trace w)) ''gemini-2.0-flash''
               (summary_prompt (content (article p))) = GenObject s \<and> s \<noteq> []
             \<and> encodeURI E (or_default (image_url (article p)) fallbackImageUrl) = Some enc
             \<and> encodeURI E enc = Some enc2
             \<longrightarrow> (\<exists>out rest'. evs =
                    gen_event (article p) (GenObject s)
                    # KyPost (sendPhoto_request (TELEGRAM_BOT_TOKEN E) (TELEGRAM_CHANNEL_ID E)
                               (message_of (article p) s) enc2 (url (article p)) 2) out
                    # rest'))
       \<and> (usable (generateObject E (length (trace w)) ''gemini-2.0-flash''
                    (summary_prompt (content (article p))))
            \<and> encodeURI E (or_default (image_url (article p)) fallbackImageUrl) \<noteq> None
            \<longrightarrow> send_attempted evs)
       \<and> ((\<exists>res. fst r = Inr res) \<longleftrightarrow>
            usable (generateObject E (length (trace w)) ''gemini-2.0-flash''
                      (summary_prompt (content (article p)))) \<and> send_succeeded evs)
       \<and> (\<forall>res. fst r = Inr res \<longrightarrow>
             (\<exists>s. generateObject E (length (trace w)) ''gemini-2.0-flash''
                      (summary_prompt (content (article p))) = GenObject s
                  \<and> res = Processed True (url (article p)) (title (article p)) s True
                            (toISOString E (now E (snd r)))))
       \<and> (\<not> usable (generateObject E (length (trace w)) ''gemini-2.0-flash''
                      (summary_prompt (content (article p))))
            \<longrightarrow> fst r = Inl (JsError (''Failed to generate summary for article: ''
                                       @ url (article p))))
       \<and> (send_attempted evs \<and> \<not> send_succeeded evs
            \<longrightarrow> fst r = Inl (JsError (''Failed to send Telegram message for article: ''
                                       @ url (article p))))"
proof -
  have c1: "r = summarize_send_record E (article p) w"
    using re by (simp add: r_def run_processor_unfold)
  have c1': "r' = summarize_send_record E (article p) (w\<lparr>kv := store\<rparr>)"
    using re by (simp add: r'_def run_processor_unfold)
  obtain rr w' where run: "run_processor E p w = (rr, w')" by (cases "run_processor E p w")
  have r: "fst r = rr" and w': "snd r = w'" and evs: "evs = run_events w w'"
    using run by (simp_all add: r_def evs_def)
  from run have "\<exists>g rest. run_events w w' = gen_event (article p) g # rest
      \<and> g = generateObject E (length (trace w)) ''gemini-2.0-flash''
                 (summary_prompt (content (article p)))
      \<and> delivery_outcome E (article p) (kv w) rr w' g rest
      \<and> send_step_entry E (article p) g rr rest"
  proof (cases rule: run_cases_entry)
    case skipped
    with re show ?thesis by simp
  next
    case (delivered chk g rest)
    with re show ?thesis by auto
  qed
  then obtain g rest where ev: "evs = gen_event (article p) g # rest"
    and g: "g = generateObject E (length (trace w)) ''gemini-2.0-flash''
                 (summary_prompt (content (article p)))"
    and out: "delivery_outcome E (article p) (kv w) rr w' g rest"
    and en: "send_step_entry E (article p) g rr rest"
    using evs by auto
  have rk: "\<forall>e \<in> set rest. \<not> is_KVGet e \<and> \<not> is_KVGetBulk e"
    using delivery_outcome_kinds [OF out] by blast
  have c2: "filter is_KVGet evs = []" "filter is_KVGetBulk evs = []"
    using rk ev by (simp_all add: filter_empty_conv)
  have c3: "\<exists>rest. evs = gen_event (article p)
              (generateObject E (length (trace w)) ''gemini-2.0-flash''
                 (summary_prompt (content (article p)))) # rest"
    using ev g by simp
  have c4: "fst r' = fst r" using ssr_kv [where E = E and a = "article p" and w = w and store = store] by (simp add: c1 c1')
  have tr: "trace (snd r') = trace (snd r)"
    using ssr_kv [where E = E and a = "article p" and w = w and store = store] by (simp add: c1 c1')
  have c5: "run_events (w\<lparr>kv := store\<rparr>) (snd r') = evs"
    by (simp add: evs_def run_events_def tr)
  have c6: "usable (generateObject E (length (trace w)) ''gemini-2.0-flash''
                    (summary_prompt (content (article p)))) \<and> send_succeeded evs
            \<longrightarrow> (\<exists>res v. fst r = Inr res
                   \<and> last evs = KVPut (''article:'' @ url (article p)) v 86400)"
  proof (intro impI, elim conjE)
    assume us: "usable (generateObject E (length (trace w)) ''gemini-2.0-flash''
                    (summary_prompt (content (article p))))"
      and ss: "send_succeeded evs"
    from us g have ug: "usable g" by simp
    from ss ev have sr: "send_succeeded rest" by simp
    show "\<exists>res v. fst r = Inr res \<and> last evs = KVPut (''article:'' @ url (article p)) v 86400"
    proof (cases rr)
      case (Inl e)
      with out ug sr show ?thesis by (auto simp: delivery_outcome_def split: if_splits)
    next
      case (Inr res)
      with out obtain pre req v where
        "rest = pre @ [KyPost req (PostJson True), KVPut (''article:'' @ url (article p)) v 86400]"
        by (auto simp: delivery_outcome_def)
      with ev have "last evs = KVPut (''article:'' @ url (article p)) v 86400" by simp
      with Inr r show ?thesis by simp
    qed
  qed
  have c7: "\<forall>s enc enc2.
             generateObject E (length (trace w)) ''gemini-2.0-flash''
               (summary_prompt (content (article p))) = GenObject s \<and> s \<noteq> []
             \<and> encodeURI E (or_default (image_url (article p)) fallbackImageUrl) = Some enc
             \<and> encodeURI E enc = Some enc2
             \<longrightarrow> (\<exists>out rest'. evs =
                    gen_event (article p) (GenObject s)
                    # KyPost (sendPhoto_request (TELEGRAM_BOT_TOKEN E) (TELEGRAM_CHANNEL_ID E)
                               (message_of (article p) s) enc2 (url (article p)) 2) out
                    # rest')"
  proof (intro allI impI, elim conjE)
    fix s enc enc2
    assume "generateObject E (length (trace w)) ''gemini-2.0-flash''
               (summary_prompt (content (article p))) = GenObject s"
      and s: "s \<noteq> []"
      and e1: "encodeURI E (or_default (image_url (article p)) fallbackImageUrl) = Some enc"
      and e2: "encodeURI E enc = Some enc2"
    with g have gs: "g = GenObject s" by simp
    from en gs s e1 e2 obtain out rest' where
      "rest = KyPost (sendPhoto_request (TELEGRAM_BOT_TOKEN E) (TELEGRAM_CHANNEL_ID E)
                        (message_of (article p) s) enc2 (url (article p)) 2) out # rest'"
      by (auto simp: send_step_entry_def)
    with ev gs show "\<exists>out rest'. evs =
                    gen_event (article p) (GenObject s)
                    # KyPost (sendPhoto_request (TELEGRAM_BOT_TOKEN E) (TELEGRAM_CHANNEL_ID E)
                               (message_of (article p) s) enc2 (url (article p)) 2) out
                    # rest'"
      by simp
  qed
  have sa: "send_attempted evs = send_attempted rest" and ss: "send_succeeded evs = send_succeeded rest"
    using ev by simp_all
  have c8: "usable (generateObject E (length (trace w)) ''gemini-2.0-flash''
                    (summary_prompt (content (article p))))
            \<and> encodeURI E (or_default (image_url (article p)) fallbackImageUrl) \<noteq> None
            \<longrightarrow> send_attempted evs"
    unfolding sa g [symmetric] using en
    by (cases g) (auto simp: send_step_entry_def usable_def split: option.splits)
  have inr: "usable g \<and> send_succeeded rest
             \<and> (\<exists>s. g = GenObject s
                    \<and> res = Processed True (url (article p)) (title (article p)) s True
                            (toISOString E (now E w')))"
    if "rr = Inr res" for res
    using out that by (auto simp: delivery_outcome_def usable_def)
  have inl: "(if \<not> usable g
              then e = JsError (''Failed to generate summary for article: '' @ url (article p))
                   \<and> \<not> send_attempted rest
              else if e = URIError then rest = []
              else e = JsError (''Failed to send Telegram message for article: '' @ url (article p))
                   \<and> send_attempted rest \<and> \<not> send_succeeded rest)"
    if "rr = Inl e" for e
    using out that by (auto simp: delivery_outcome_def split: if_splits)
  have c9: "(\<exists>res. fst r = Inr res) \<longleftrightarrow>
            usable (generateObject E (length (trace w)) ''gemini-2.0-flash''
                      (summary_prompt (content (article p)))) \<and> send_succeeded evs"
  proof (cases rr)
    case (Inl e)
    have "\<not> send_succeeded rest" if "usable g"
      using inl [OF Inl] that by (auto split: if_splits)
    with Inl r show ?thesis unfolding ss g [symmetric] by auto
  next
    case (Inr res)
    with inr [OF Inr] r show ?thesis unfolding ss g [symmetric] by simp
  qed
  have c10: "\<forall>res. fst r = Inr res \<longrightarrow>
             (\<exists>s. generateObject E (length (trace w)) ''gemini-2.0-flash''
                      (summary_prompt (content (article p))) = GenObject s
                  \<and> res = Processed True (url (article p)) (title (article p)) s True
                            (toISOString E (now E (snd r))))"
    unfolding g [symmetric] w' r using inr by blast
  have c11: "\<not> usable (generateObject E (length (trace w)) ''gemini-2.0-flash''
                      (summary_prompt (content (article p))))
            \<longrightarrow> fst r = Inl (JsError (''Failed to generate summary for article: ''
                                       @ url (article p)))"
  proof (cases rr)
    case (Inl e)
    with inl [OF Inl] r show ?thesis unfolding g [symmetric] by simp
  next
    case (Inr res)
    with inr [OF Inr] show ?thesis unfolding g [symmetric] by simp
  qed
  have c12: "send_attempted evs \<and> \<not> send_succeeded evs
            \<longrightarrow> fst r = Inl (JsError (''Failed to send Telegram message for article: ''
                                       @ url (article p)))"
  proof (cases rr)
    case (Inl e)
    with inl [OF Inl] r show ?thesis unfolding sa ss by (auto split: if_splits)
  next
    case (Inr res)
    with inr [OF Inr] show ?thesis unfolding ss by simp
  qed
  from c1 c2 c3 c4 c5 c6 c7 c8 c9 c10 c11 c12 show ?thesis by (intro conjI)
qed

theorem reprocess_skips_the_check_witness:
  "live_entry sample_env cached_world ''https://x/a''
   \<and> filter is_KVGet (run_events cached_world
         (snd (run_processor sample_env reprocess_params cached_world))) = []
   \<and> (\<exists>res v. fst (run_processor sample_env reprocess_params cached_world) = Inr res
         \<and> last (run_events cached_world
                   (snd (run_processor sample_env reprocess_params cached_world))) =
             KVPut ''article:https://x/a'' v 86400)
   \<and> (\<exists>out rest'.
         run_events cached_world (snd (run_processor sample_env reprocess_params cached_world)) =
           gen_event sample_article (GenObject ''Two paragraphs.'')
           # KyPost (sendPhoto_request ''token'' ''channel''
                      (message_of sample_article ''Two paragraphs.'') ''https://x/a.jpg''
                      ''https://x/a'' 2) out
           # rest')"
proof -
  have h: "reprocess reprocess_params = Some True" by (simp add: reprocess_params_def)
  have l: "live_entry sample_env cached_world ''https://x/a''"
    by (simp add: live_entry_def kv_lookup_def now_def sample_env_def cached_world_def)
  have g: "usable (generateObject sample_env (length (trace cached_world)) ''gemini-2.0-flash''
                    (summary_prompt (content (article reprocess_params))))"
    by (simp add: usable_def sample_env_def)
  have u: "url (article reprocess_params) = ''https://x/a''"
    by (simp add: reprocess_params_def sample_article_def)
  note inst = reprocess_skips_the_check
    [where E = sample_env and p = reprocess_params and w = cached_world and store = Map.empty,
     OF h]
  from inst g sample_reprocess
  have "filter is_KVGet (run_events cached_world
         (snd (run_processor sample_env reprocess_params cached_world))) = []"
    and "\<exists>res v. fst (run_processor sample_env reprocess_params cached_world) = Inr res
         \<and> last (run_events cached_world
                   (snd (run_processor sample_env reprocess_params cached_world))) =
             KVPut (''article:'' @ url (article reprocess_params)) v 86400"
    by blast+
  moreover have "\<exists>out rest'.
         run_events cached_world (snd (run_processor sample_env reprocess_params cached_world)) =
           gen_event sample_article (GenObject ''Two paragraphs.'')
           # KyPost (sendPhoto_request ''token'' ''channel''
                      (message_of sample_article ''Two paragraphs.'') ''https://x/a.jpg''
                      ''https://x/a'' 2) out
           # rest'"
  proof -
    have e: "generateObject sample_env (length (trace cached_world)) ''gemini-2.0-flash''
               (summary_prompt (content (article reprocess_params))) = GenObject ''Two paragraphs.''
             \<and> ''Two paragraphs.'' \<noteq> []
             \<and> encodeURI sample_env
                   (or_default (image_url (article reprocess_params)) fallbackImageUrl) =
                 Some ''https://x/a.jpg''
             \<and> encodeURI sample_env ''https://x/a.jpg'' = Some ''https://x/a.jpg''"
      by (simp add: sample_env_def reprocess_params_def sample_article_def or_default_def
            truthy_def)
    have a: "article reprocess_params = sample_article"
      "TELEGRAM_BOT_TOKEN sample_env = ''token''" "TELEGRAM_CHANNEL_ID sample_env = ''channel''"
      by (simp_all add: reprocess_params_def sample_env_def)
    from inst e have "\<exists>out rest'.
         run_events cached_world (snd (run_processor sample_env reprocess_params cached_world)) =
           gen_event (article reprocess_params) (GenObject ''Two paragraphs.'')
           # KyPost (sendPhoto_request (TELEGRAM_BOT_TOKEN sample_env)
                      (TELEGRAM_CHANNEL_ID sample_env)
                      (message_of (article reprocess_params) ''Two paragraphs.'')
                      ''https://x/a.jpg'' (url (article reprocess_params)) 2) out
           # rest'"
      by blast
    then show ?thesis unfolding a u [unfolded a] .
  qed
  ultimately show ?thesis using l u by simp
qed

section \<open>Notifier: the fallback image\<close>

text \<open>
  C6. \<open>sendTelegramMessage\<close>, once the image reference is encoded, posts with the supplied
  image under a retry budget of 2. If that post returns ok it returns true after this one
  post. If it fails (it throws, or the reply is not ok) it makes exactly one further post,
  with the fixed fallback image under a retry budget of 3, and returns true exactly when
  that post returns ok. The cache is not touched.
\<close>

theorem fallback_image_once:
  fixes E t c m imageUrl u w enc
  defines "req1 \<equiv> sendPhoto_request t c m enc u 2"
  defines "req2 \<equiv> sendPhoto_request t c m fallbackImageUrl u 3"
  defines "first \<equiv> ky_post_json E (length (trace w)) req1"
  defines "second \<equiv> ky_post_json E (length (trace w) + 2) req2"
  defines "res \<equiv> sendTelegramMessage E t c m imageUrl u w"
  assumes enc: "encodeURI E imageUrl = Some enc"
  shows "(first = PostJson True \<longrightarrow>
            fst res = Inr True \<and> filter is_KyPost (run_events w (snd res)) = [KyPost req1 first])
       \<and> (first \<noteq> PostJson True \<longrightarrow>
            filter is_KyPost (run_events w (snd res)) = [KyPost req1 first, KyPost req2 second]
            \<and> fst res = Inr (second = PostJson True))
       \<and> photo req1 = enc \<and> photo req2 = fallbackImageUrl
       \<and> retry_limit req1 = 2 \<and> retry_limit req2 = 3
       \<and> kv (snd res) = kv w"
proof -
  have p: "photo req1 = enc \<and> photo req2 = fallbackImageUrl \<and> retry_limit req1 = 2 \<and> retry_limit req2 = 3"
    by (simp add: req1_def req2_def sendPhoto_request_def)
  have a: "first = PostJson True \<longrightarrow>
            fst res = Inr True \<and> filter is_KyPost (run_events w (snd res)) = [KyPost req1 first]"
    using enc
    by (simp add: res_def first_def req1_def sendTelegramMessage_def ky_post_def emit_def
          run_events_def Let_def)
  have b: "first \<noteq> PostJson True \<longrightarrow>
            filter is_KyPost (run_events w (snd res)) = [KyPost req1 first, KyPost req2 second]
            \<and> fst res = Inr (second = PostJson True)"
  proof
    assume nf: "first \<noteq> PostJson True"
    show "filter is_KyPost (run_events w (snd res)) = [KyPost req1 first, KyPost req2 second]
            \<and> fst res = Inr (second = PostJson True)"
    proof (cases first)
      case PostThrows
      then show ?thesis using enc
        by (cases second)
           (simp_all add: res_def first_def second_def req1_def req2_def sendTelegramMessage_def
              ky_post_def emit_def run_events_def Let_def split: bool.splits)
    next
      case (PostJson ok)
      with nf have "ok = False" by simp
      with PostJson show ?thesis using enc
        by (cases second)
           (simp_all add: res_def first_def second_def req1_def req2_def sendTelegramMessage_def
              ky_post_def emit_def run_events_def Let_def split: bool.splits)
    qed
  qed
  have k: "kv (snd res) = kv w"
    using enc
    by (simp add: res_def sendTelegramMessage_def ky_post_def emit_def Let_def
          split: post_outcome.splits bool.splits prod.splits)
  from a b p k show ?thesis by (elim conjE, intro conjI) assumption+
qed

theorem fallback_image_once_witness:
  "fst (sendTelegramMessage fallback_env ''token'' ''channel'' ''msg'' ''https://x/a.jpg''
          ''https://x/a'' empty_world) = Inr True
   \<and> length (filter is_KyPost (run_events empty_world
        (snd (sendTelegramMessage fallback_env ''token'' ''channel'' ''msg'' ''https://x/a.jpg''
                ''https://x/a'' empty_world)))) = 2"
proof -
  have h: "encodeURI fallback_env ''https://x/a.jpg'' = Some ''https://x/a.jpg''"
    by (simp add: fallback_env_def sample_env_def)
  have f: "ky_post_json fallback_env (length (trace empty_world))
             (sendPhoto_request ''token'' ''channel'' ''msg'' ''https://x/a.jpg'' ''https://x/a'' 2)
           \<noteq> PostJson True"
    by (simp add: fallback_env_def sample_env_def sendPhoto_request_def fallbackImageUrl_def)
  have s: "ky_post_json fallback_env (length (trace empty_world) + 2)
             (sendPhoto_request ''token'' ''channel'' ''msg'' fallbackImageUrl ''https://x/a'' 3)
           = PostJson True"
    by (simp add: fallback_env_def sample_env_def sendPhoto_request_def)
  note inst = fallback_image_once
    [where E = fallback_env and t = "''token''" and c = "''channel''" and m = "''msg''"
       and imageUrl = "''https://x/a.jpg''" and u = "''https://x/a''" and w = empty_world,
     OF h]
  from inst f
  have "filter is_KyPost (run_events empty_world
          (snd (sendTelegramMessage fallback_env ''token'' ''channel'' ''msg'' ''https://x/a.jpg''
                  ''https://x/a'' empty_world))) =
        [KyPost (sendPhoto_request ''token'' ''channel'' ''msg'' ''https://x/a.jpg'' ''https://x/a'' 2)
           (ky_post_json fallback_env (length (trace empty_world))
             (sendPhoto_request ''token'' ''channel'' ''msg'' ''https://x/a.jpg'' ''https://x/a'' 2)),
         KyPost (sendPhoto_request ''token'' ''channel'' ''msg'' fallbackImageUrl ''https://x/a'' 3)
           (ky_post_json fallback_env (length (trace empty_world) + 2)
             (sendPhoto_request ''token'' ''channel'' ''msg'' fallbackImageUrl ''https://x/a'' 3))]"
    and "fst (sendTelegramMessage fallback_env ''token'' ''channel'' ''msg'' ''https://x/a.jpg''
          ''https://x/a'' empty_world) =
         Inr (ky_post_json fallback_env (length (trace empty_world) + 2)
             (sendPhoto_request ''token'' ''channel'' ''msg'' fallbackImageUrl ''https://x/a'' 3)
               = PostJson True)"
    by blast+
  then show ?thesis using s by simp
qed

section \<open>The cache key\<close>

text \<open>
  C4. Both workflows build the key as the prefix \<open>article:\<close> followed by the URL, and each
  check reads exactly under that key. In any world, the idempotency check of Delivery makes
  one read of the key \<open>article:\<close> + URL and answers whether that read found a value; the
  bulk check of Discovery, on a non-empty list of at most 100 links, makes one bulk read of
  the keys \<open>article:\<close> + link, in the order of the list, and stores for each link whether
  the read of its key found a value (the link \<open>__proto__\<close> apart, for which the object
  takes no entry), so that the assembly step then takes a listed link as processed exactly
  when its key has a value (or the link is \<open>__proto__\<close>). The record step of Delivery makes
  one put under the key \<open>article:\<close> + URL with a TTL of 86400 seconds; at any later moment,
  with the store as the put left it, the key holds the written value while less than 86400
  seconds have passed since the put and nothing after that, hence a read of the key, the
  idempotency check and the bulk check see the entry before the TTL elapses and see none
  after it.
\<close>

theorem cache_key_shared:
  assumes mark: "mark_as_processed E a summary w = (r, w1)"
    and same: "kv w2 = kv w1"
    and len: "length links \<le> 100" and ne: "links \<noteq> []"
  shows "Processor_CACHE_KEY_PREFIX = ''article:'' \<and> Scraper_CACHE_KEY_PREFIX = ''article:''
       \<and> check_if_processed E b w0 =
           (Inr (kv_lookup (kv w0) (now E w0) (''article:'' @ url b) \<noteq> None),
            emit (KVGet (''article:'' @ url b)) w0)
       \<and> (\<exists>processed.
             check_processed_articles E links w0 =
               (Inr processed, emit (KVGetBulk (map (\<lambda>l. ''article:'' @ l) links)) w0)
             \<and> (\<forall>l. processed l =
                    (if l \<in> set links \<and> l \<noteq> ''__proto__''
                     then Some (kv_lookup (kv w0) (now E w0) (''article:'' @ l) \<noteq> None)
                     else None))
             \<and> (\<forall>l \<in> set links.
                    marked processed l =
                      (kv_lookup (kv w0) (now E w0) (''article:'' @ l) \<noteq> None
                       \<or> l = ''__proto__'')))
       \<and> run_events w w1 = [put_event E a summary w]
       \<and> kv_lookup (kv w2) (now E w2) (''article:'' @ url a) =
           (if now E w2 < now E w + 86400 * 1000
            then Some (JSON_stringify E \<lparr>meta_processed_at = toISOString E (now E w),
                         meta_title = title a, meta_url = url a, meta_summary = summary\<rparr>)
            else None)
       \<and> fst (GH_NEWS_CACHE_get E (''article:'' @ url a) w2) =
           (if now E w2 < now E w + 86400 * 1000
            then Some (JSON_stringify E \<lparr>meta_processed_at = toISOString E (now E w),
                         meta_title = title a, meta_url = url a, meta_summary = summary\<rparr>)
            else None)
       \<and> fst (check_if_processed E a w2) = Inr (now E w2 < now E w + 86400 * 1000)
       \<and> (\<exists>processed. fst (check_processed_articles E links w2) = Inr processed
             \<and> (url a \<in> set links \<and> url a \<noteq> ''__proto__'' \<longrightarrow>
                  processed (url a) = Some (now E w2 < now E w + 86400 * 1000)
                  \<and> marked processed (url a) = (now E w2 < now E w + 86400 * 1000)))"
proof -
  let ?v = "JSON_stringify E \<lparr>meta_processed_at = toISOString E (now E w),
                   meta_title = title a, meta_url = url a, meta_summary = summary\<rparr>"
  from mark have w1: "w1 = w\<lparr>kv := (kv w)(''article:'' @ url a \<mapsto>
         \<lparr>kv_value = ?v, kv_expiration = now E w + 86400000\<rparr>),
       trace := trace w @ [put_event E a summary w]\<rparr>"
    by (auto simp: mark_as_processed_def GH_NEWS_CACHE_put_def emit_def put_event_def
          Processor_CACHE_KEY_PREFIX_def Let_def)
  have look: "kv_lookup (kv w2) (now E w2) (''article:'' @ url a) =
           (if now E w2 < now E w + 86400 * 1000 then Some ?v else None)"
    using same by (simp add: w1 kv_lookup_def)
  have chk: "check_if_processed E b' w' =
           (Inr (kv_lookup (kv w') (now E w') (''article:'' @ url b') \<noteq> None),
            emit (KVGet (''article:'' @ url b')) w')" for b' w'
    by (simp add: check_if_processed_def GH_NEWS_CACHE_get_def Processor_CACHE_KEY_PREFIX_def
          Let_def)
  have bulk: "\<exists>processed.
             check_processed_articles E links w' =
               (Inr processed, emit (KVGetBulk (map (\<lambda>l. ''article:'' @ l) links)) w')
             \<and> (\<forall>l. processed l =
                    (if l \<in> set links \<and> l \<noteq> ''__proto__''
                     then Some (kv_lookup (kv w') (now E w') (''article:'' @ l) \<noteq> None)
                     else None))
             \<and> (\<forall>l \<in> set links.
                    marked processed l =
                      (kv_lookup (kv w') (now E w') (''article:'' @ l) \<noteq> None
                       \<or> l = ''__proto__''))" for w'
  proof -
    from check_processed_articles_result [OF len, of E w'] obtain processed where
      c0: "check_processed_articles E links w' =
           (Inr processed,
            if links = [] then w' else emit (KVGetBulk (map (\<lambda>l. ''article:'' @ l) links)) w')"
      and p: "\<forall>l. processed l =
               (if l \<in> set links \<and> l \<noteq> ''__proto__'' then Some (live_entry E w' l) else None)"
      by blast
    from c0 ne have c: "check_processed_articles E links w' =
           (Inr processed, emit (KVGetBulk (map (\<lambda>l. ''article:'' @ l) links)) w')"
      by (simp only: if_False)
    have "marked processed l =
            (kv_lookup (kv w') (now E w') (''article:'' @ l) \<noteq> None \<or> l = ''__proto__'')"
      if "l \<in> set links" for l
      using that p
      by (simp add: marked_def js_get_def live_entry_def Object_prototype_names_def)
    with c p show ?thesis by (simp add: live_entry_def)
  qed
  from bulk [of w2] obtain processed where
    c2: "fst (check_processed_articles E links w2) = Inr processed"
    and p2: "\<forall>l. processed l =
                    (if l \<in> set links \<and> l \<noteq> ''__proto__''
                     then Some (kv_lookup (kv w2) (now E w2) (''article:'' @ l) \<noteq> None)
                     else None)"
    and m2: "\<forall>l \<in> set links.
                    marked processed l =
                      (kv_lookup (kv w2) (now E w2) (''article:'' @ l) \<noteq> None
                       \<or> l = ''__proto__'')"
    by auto
  have after: "\<exists>processed. fst (check_processed_articles E links w2) = Inr processed
             \<and> (url a \<in> set links \<and> url a \<noteq> ''__proto__'' \<longrightarrow>
                  processed (url a) = Some (now E w2 < now E w + 86400 * 1000)
                  \<and> marked processed (url a) = (now E w2 < now E w + 86400 * 1000))"
    using c2 p2 m2 look by auto
  have pre: "Processor_CACHE_KEY_PREFIX = ''article:''" "Scraper_CACHE_KEY_PREFIX = ''article:''"
    by (simp_all add: Processor_CACHE_KEY_PREFIX_def Scraper_CACHE_KEY_PREFIX_def)
  have ev: "run_events w w1 = [put_event E a summary w]" by (simp add: w1)
  have get: "fst (GH_NEWS_CACHE_get E (''article:'' @ url a) w2) =
           (if now E w2 < now E w + 86400 * 1000 then Some ?v else None)"
    using look by (simp add: GH_NEWS_CACHE_get_def)
  have chk2: "fst (check_if_processed E a w2) = Inr (now E w2 < now E w + 86400 * 1000)"
    using look by (simp add: chk)
  from pre chk [of b w0] bulk [of w0] ev look get chk2 after show ?thesis by blast
qed

theorem cache_key_shared_witness:
  "check_if_processed sample_env sample_article
      (snd (mark_as_processed sample_env sample_article ''Two paragraphs.'' empty_world)) =
     (Inr True,
      emit (KVGet ''article:https://x/a'')
        (snd (mark_as_processed sample_env sample_article ''Two paragraphs.'' empty_world)))
   \<and> (\<exists>processed.
         check_processed_articles sample_env [''https://x/a'', ''https://x/b'']
           (snd (mark_as_processed sample_env sample_article ''Two paragraphs.'' empty_world)) =
           (Inr processed,
            emit (KVGetBulk [''article:https://x/a'', ''article:https://x/b''])
              (snd (mark_as_processed sample_env sample_article ''Two paragraphs.'' empty_world)))
         \<and> processed ''https://x/a'' = Some True
         \<and> processed ''https://x/b'' = Some False)
   \<and> run_events empty_world
        (snd (mark_as_processed sample_env sample_article ''Two paragraphs.'' empty_world)) =
       [KVPut ''article:https://x/a'' ''{}'' 86400]"
proof -
  let ?m = "mark_as_processed sample_env sample_article ''Two paragraphs.'' empty_world"
  have h1: "?m = (fst ?m, snd ?m)" by simp
  have h2: "kv (snd ?m) = kv (snd ?m)" by simp
  have h3: "length [''https://x/a'', ''https://x/b''] \<le> 100" by simp
  have h4: "[''https://x/a'', ''https://x/b''] \<noteq> []" by simp
  have u: "url sample_article = ''https://x/a''" by (simp add: sample_article_def)
  have k: "kv_lookup (kv (snd ?m)) (now sample_env (snd ?m)) ''article:https://x/a'' \<noteq> None"
    "kv_lookup (kv (snd ?m)) (now sample_env (snd ?m)) ''article:https://x/b'' = None"
    by (simp_all add: mark_as_processed_def GH_NEWS_CACHE_put_def emit_def now_def Let_def
          kv_lookup_def Processor_CACHE_KEY_PREFIX_def sample_env_def empty_world_def
          sample_article_def)
  have p: "put_event sample_env sample_article ''Two paragraphs.'' empty_world =
             KVPut ''article:https://x/a'' ''{}'' 86400"
    by (simp add: put_event_def sample_env_def sample_article_def)
  note t = cache_key_shared [OF h1 h2 h3 h4, of sample_article "snd ?m"]
  from t have c: "check_if_processed sample_env sample_article (snd ?m) =
                    (Inr True, emit (KVGet ''article:https://x/a'') (snd ?m))"
    unfolding u using k(1) by simp
  from t have e: "run_events empty_world (snd ?m) = [KVPut ''article:https://x/a'' ''{}'' 86400]"
    unfolding p by simp
  from t obtain processed where
    b: "check_processed_articles sample_env [''https://x/a'', ''https://x/b''] (snd ?m) =
          (Inr processed,
           emit (KVGetBulk (map (\<lambda>l. ''article:'' @ l) [''https://x/a'', ''https://x/b'']))
             (snd ?m))"
    and q: "\<forall>l. processed l =
              (if l \<in> set [''https://x/a'', ''https://x/b''] \<and> l \<noteq> ''__proto__''
               then Some (kv_lookup (kv (snd ?m)) (now sample_env (snd ?m)) (''article:'' @ l)
                            \<noteq> None)
               else None)"
    by blast
  from q [rule_format, of "''https://x/a''"] k(1)
  have qa: "processed ''https://x/a'' = Some True" by simp
  from q [rule_format, of "''https://x/b''"] k(2)
  have qb: "processed ''https://x/b'' = Some False" by simp
  from b have b': "check_processed_articles sample_env [''https://x/a'', ''https://x/b''] (snd ?m) =
          (Inr processed,
           emit (KVGetBulk [''article:https://x/a'', ''article:https://x/b'']) (snd ?m))"
    by simp
  from c e b' qa qb show ?thesis by blast
qed

section \<open>Discovery: steps and the assembly loop\<close>

lemma effects_within_refl [simp]: "effects_within Q w w"
  by (simp add: effects_within_def)

lemma effects_within_trans:
  "effects_within Q w w1 \<Longrightarrow> effects_within Q w1 w2 \<Longrightarrow> effects_within Q w w2"
  by (auto simp: effects_within_def)

lemma effects_within_emit: "Q ev \<Longrightarrow> effects_within Q w (emit ev w)"
  by (simp add: effects_within_def emit_def)

lemma attempts_effects:
  assumes "\<And>w r w'. body w = (r, w') \<Longrightarrow> effects_within Q w w'"
  shows "attempts n body w = (r, w') \<Longrightarrow> effects_within Q w w'"
proof (induction n arbitrary: w)
  case 0
  then show ?case using assms by simp
next
  case (Suc n)
  obtain r1 w1 where b: "body w = (r1, w1)" by (cases "body w")
  note e1 = assms [OF b]
  show ?case
  proof (cases r1)
    case (Inr v)
    with Suc.prems b e1 show ?thesis by simp
  next
    case (Inl e)
    with Suc.prems b have "attempts n body w1 = (r, w')" by simp
    from Suc.IH [OF this] e1 show ?thesis by (rule effects_within_trans [rotated])
  qed
qed

lemma step_do_effects:
  assumes "\<And>w r w'. body w = (r, w') \<Longrightarrow> effects_within Q w w'"
  shows "step_do n body w = (r, w') \<Longrightarrow> effects_within Q w w'"
  unfolding step_do_def using assms by (rule attempts_effects)

lemma datePublished_of_Inl:
  "datePublished_of E entry w = Inl e \<longleftrightarrow> e = RangeError \<and> unparseable E entry"
  by (auto simp: datePublished_of_def unparseable_def split: option.splits)

lemma js_get_Own: "js_get obj key = Own v \<longleftrightarrow> obj key = Some v"
  by (auto simp: js_get_def split: option.splits)

lemma js_get_Undefined:
  "js_get obj key = Undefined \<longleftrightarrow> obj key = None \<and> key \<notin> set Object_prototype_names"
  by (auto simp: js_get_def split: option.splits)

lemma js_get_Inherited:
  "js_get obj key = Inherited \<longleftrightarrow> obj key = None \<and> key \<in> set Object_prototype_names"
  by (auto simp: js_get_def split: option.splits)

lemma prepare_loop_effects:
  "prepare_loop E processed feed links acc w = (r, w') \<Longrightarrow> effects_within is_ConsoleLog w w'"
proof (induction links arbitrary: acc w)
  case Nil
  then show ?case by simp
next
  case (Cons l links)
  show ?case
  proof (cases "marked processed l")
    case True
    with Cons.prems have "prepare_loop E processed feed links acc
         (emit (ConsoleLog (''Skipping already processed article: '' @ l)) w) = (r, w')" by simp
    from Cons.IH [OF this] show ?thesis
      by (rule effects_within_trans [rotated]) (simp add: effects_within_emit)
  next
    case np: False
    show ?thesis
    proof (cases "js_get feed l")
      case Undefined
      with np Cons.prems have "prepare_loop E processed feed links acc
         (emit (ConsoleLog (''Article not found in feed: '' @ l)) w) = (r, w')" by simp
      from Cons.IH [OF this] show ?thesis
        by (rule effects_within_trans [rotated]) (simp add: effects_within_emit)
    next
      case Inherited
      with np Cons.prems show ?thesis by (auto dest: Cons.IH)
    next
      case (Own entry)
      show ?thesis
      proof (cases "datePublished_of E entry w")
        case (Inl e)
        with np Own Cons.prems show ?thesis by simp
      next
        case (Inr d)
        with np Own Cons.prems show ?thesis by (auto dest: Cons.IH)
      qed
    qed
  qed
qed

lemma prepare_loop_urls:
  "prepare_loop E processed feed links acc w = (Inr arts, w') \<Longrightarrow>
     map url arts = map url acc @ filter (selected processed feed) links"
proof (induction links arbitrary: acc w)
  case Nil
  then show ?case by simp
next
  case (Cons l links)
  show ?case
  proof (cases "marked processed l")
    case True
    with Cons.prems show ?thesis by (auto simp: selected_def dest!: Cons.IH)
  next
    case np: False
    show ?thesis
    proof (cases "js_get feed l")
      case Undefined
      with np Cons.prems show ?thesis by (auto simp: selected_def dest!: Cons.IH)
    next
      case Inherited
      with np Cons.prems show ?thesis by (auto simp: selected_def dest!: Cons.IH)
    next
      case (Own entry)
      with np Cons.prems show ?thesis
        by (auto simp: selected_def split: sum.splits dest!: Cons.IH)
    qed
  qed
qed

lemma prepare_loop_completes:
  "dates_parse E processed feed links \<Longrightarrow>
     \<exists>arts w'. prepare_loop E processed feed links acc w = (Inr arts, w')"
proof (induction links arbitrary: acc w)
  case Nil
  then show ?case by simp
next
  case (Cons l links)
  then have rest: "dates_parse E processed feed links"
    and here: "\<not> (selected processed feed l
                 \<and> (case feed l of None \<Rightarrow> False | Some entry \<Rightarrow> unparseable E entry))"
    by (simp_all add: dates_parse_def)
  show ?case
  proof (cases "marked processed l")
    case True
    then show ?thesis using Cons.IH [OF rest] by simp
  next
    case np: False
    show ?thesis
    proof (cases "js_get feed l")
      case Undefined
      with np show ?thesis using Cons.IH [OF rest] by simp
    next
      case Inherited
      with np show ?thesis using Cons.IH [OF rest] by simp
    next
      case (Own entry)
      with np here have "\<not> unparseable E entry" by (simp add: selected_def js_get_Own)
      then obtain d where "datePublished_of E entry w = Inr d"
        using datePublished_of_Inl [of E entry w] by (cases "datePublished_of E entry w") auto
      with np Own show ?thesis using Cons.IH [OF rest] by simp
    qed
  qed
qed

lemma run_events_emit_subset:
  "set (run_events (emit ev w) w') \<subseteq> set (run_events w w')"
  by (simp add: run_events_def emit_def set_drop_subset_set_drop)

lemma prepare_loop_logs:
  assumes "prepare_loop E processed feed links acc w = (Inr arts, w')"
    and "l \<in> set links" and "\<not> selected processed feed l"
  shows "drop_log processed l \<in> set (run_events w w')"
  using assms
proof (induction links arbitrary: acc w)
  case Nil
  then show ?case by simp
next
  case (Cons k links)
  have keep: "ev \<in> set (run_events w1 w')"
    if "prepare_loop E processed feed links acc' (emit ev w1) = (Inr arts, w')" for ev acc' w1
    using prepare_loop_effects [OF that]
    by (auto simp: effects_within_def emit_def run_events_def)
  show ?case
  proof (cases "k = l")
    case True
    show ?thesis
    proof (cases "marked processed l")
      case m: True
      with True Cons.prems(1) have "prepare_loop E processed feed links acc
         (emit (ConsoleLog (''Skipping already processed article: '' @ l)) w) = (Inr arts, w')"
        by simp
      from keep [OF this] m show ?thesis by (simp add: drop_log_def)
    next
      case m: False
      with Cons.prems(3) have u: "js_get feed l = Undefined" by (simp add: selected_def)
      with m True Cons.prems(1) have "prepare_loop E processed feed links acc
         (emit (ConsoleLog (''Article not found in feed: '' @ l)) w) = (Inr arts, w')"
        by simp
      from keep [OF this] m show ?thesis by (simp add: drop_log_def)
    qed
  next
    case False
    with Cons.prems have mem: "l \<in> set links" by simp
    show ?thesis
    proof (cases "marked processed k")
      case True
      with Cons.prems have "prepare_loop E processed feed links acc
         (emit (ConsoleLog (''Skipping already processed article: '' @ k)) w) = (Inr arts, w')"
        by simp
      from Cons.IH [OF this mem Cons.prems(3)] show ?thesis
        using run_events_emit_subset by blast
    next
      case np: False
      show ?thesis
      proof (cases "js_get feed k")
        case Undefined
        with np Cons.prems have "prepare_loop E processed feed links acc
           (emit (ConsoleLog (''Article not found in feed: '' @ k)) w) = (Inr arts, w')"
          by simp
        from Cons.IH [OF this mem Cons.prems(3)] show ?thesis
          using run_events_emit_subset by blast
      next
        case Inherited
        with np Cons.prems obtain acc' where
          "prepare_loop E processed feed links acc' w = (Inr arts, w')"
          by auto
        from Cons.IH [OF this mem Cons.prems(3)] show ?thesis .
      next
        case (Own entry)
        with np Cons.prems obtain acc' where
          "prepare_loop E processed feed links acc' w = (Inr arts, w')"
          by (auto split: sum.splits)
        from Cons.IH [OF this mem Cons.prems(3)] show ?thesis .
      qed
    qed
  qed
qed

lemma prepare_loop_fails:
  "\<not> dates_parse E processed feed links \<Longrightarrow>
     \<exists>w'. prepare_loop E processed feed links acc w = (Inl RangeError, w')"
proof (induction links arbitrary: acc w)
  case Nil
  then show ?case by (simp add: dates_parse_def)
next
  case (Cons l links)
  show ?case
  proof (cases "selected processed feed l
                 \<and> (case feed l of None \<Rightarrow> False | Some entry \<Rightarrow> unparseable E entry)")
    case True
    then obtain entry where "js_get feed l = Own entry" "unparseable E entry"
      "\<not> marked processed l"
      by (auto simp: selected_def js_get_Own split: option.splits)
    then show ?thesis using datePublished_of_Inl [of E entry w RangeError] by simp
  next
    case False
    with Cons.prems have rest: "\<not> dates_parse E processed feed links"
      by (simp add: dates_parse_def)
    show ?thesis
    proof (cases "marked processed l")
      case True
      then show ?thesis using Cons.IH [OF rest] by simp
    next
      case np: False
      show ?thesis
      proof (cases "js_get feed l")
        case Undefined
        with np show ?thesis using Cons.IH [OF rest] by simp
      next
        case Inherited
        with np show ?thesis using Cons.IH [OF rest] by simp
      next
        case (Own entry)
        with np False have "\<not> unparseable E entry" by (simp add: selected_def js_get_Own)
        then obtain d where "datePublished_of E entry w = Inr d"
          using datePublished_of_Inl [of E entry w] by (cases "datePublished_of E entry w") auto
        with np Own show ?thesis using Cons.IH [OF rest] by simp
      qed
    qed
  qed
qed

lemma attempts_always_Inl:
  assumes "\<And>w. \<exists>w'. body w = (Inl e, w')"
  shows "\<exists>w'. attempts n body w = (Inl e, w')"
proof (induction n arbitrary: w)
  case 0
  then show ?case using assms by simp
next
  case (Suc n)
  from assms obtain w1 where "body w = (Inl e, w1)" by blast
  then show ?case using Suc.IH [of w1] by simp
qed

lemma step_prepare_fails:
  assumes "\<not> dates_parse E processed feed links"
  shows "\<exists>w'. step_do n (prepare_articles E processed feed links) w = (Inl RangeError, w')
           \<and> effects_within is_ConsoleLog w w'"
proof -
  have "\<And>w. \<exists>w'. prepare_articles E processed feed links w = (Inl RangeError, w')"
    using prepare_loop_fails [OF assms] by (simp add: prepare_articles_def)
  then have "\<exists>w'. attempts n (prepare_articles E processed feed links) w =
                 (Inl RangeError, w')"
    by (rule attempts_always_Inl)
  then obtain w' where
    s: "step_do n (prepare_articles E processed feed links) w = (Inl RangeError, w')"
    unfolding step_do_def by blast
  have "effects_within is_ConsoleLog w w'"
    using s by (rule step_do_effects [rotated]) (simp add: prepare_articles_def prepare_loop_effects)
  with s show ?thesis by blast
qed

lemma step_prepare_completes:
  assumes "dates_parse E processed feed links"
  shows "step_do n (prepare_articles E processed feed links) w =
           prepare_articles E processed feed links w"
  by (rule step_do_once)
     (use prepare_loop_completes [OF assms] in \<open>simp add: prepare_articles_def\<close>)

lemma step_check_within_limit:
  assumes "length links \<le> 100"
  shows "step_do n (check_processed_articles E links) w = check_processed_articles E links w"
  by (rule step_do_once) (use check_processed_articles_result [OF assms] in blast)

lemma step_check_over_limit:
  assumes "length links > 100"
  shows "\<exists>w'. step_do n (check_processed_articles E links) w = (Inl KVTooManyKeys, w')
           \<and> effects_within is_KVGetBulk w w'"
proof -
  have b: "check_processed_articles E links w0 =
             (Inl KVTooManyKeys, emit (KVGetBulk (map (\<lambda>l. ''article:'' @ l) links)) w0)" for w0
    using assms
    by (auto simp: check_processed_articles_def GH_NEWS_CACHE_get_bulk_def kv_bulk_limit_def
          Scraper_CACHE_KEY_PREFIX_def Let_def)
  then have "\<And>w. \<exists>w'. check_processed_articles E links w = (Inl KVTooManyKeys, w')" by blast
  then have "\<exists>w'. attempts n (check_processed_articles E links) w =
                 (Inl KVTooManyKeys, w')"
    by (rule attempts_always_Inl)
  then obtain w' where
    s: "step_do n (check_processed_articles E links) w = (Inl KVTooManyKeys, w')"
    unfolding step_do_def by blast
  have "effects_within is_KVGetBulk w w'"
    using s by (rule step_do_effects [rotated]) (auto simp: b effects_within_emit)
  with s show ?thesis by blast
qed

lemma map_enumerate_fst:
  "map (\<lambda>(index, instance). f index) (enumerate n ids) = map f [n..<n + length ids]"
proof -
  have "map (\<lambda>(index, instance). f index) (enumerate n ids) = map (f \<circ> fst) (enumerate n ids)"
    by (rule map_cong) auto
  also have "\<dots> = map f (map fst (enumerate n ids))" by (simp only: map_map)
  also have "\<dots> = map f [n..<n + length ids]" by (simp only: map_fst_enumerate)
  finally show ?thesis .
qed

lemma map_enumerate_snd:
  "map (\<lambda>(index, a). f a) (enumerate n xs) = map f xs"
proof -
  have "map (\<lambda>(index, a). f a) (enumerate n xs) = map (f \<circ> snd) (enumerate n xs)"
    by (rule map_cong) auto
  also have "\<dots> = map f (map snd (enumerate n xs))" by (simp only: map_map)
  also have "\<dots> = map f xs" by (simp only: map_snd_enumerate)
  finally show ?thesis .
qed

lemma map_f_nth: "map (\<lambda>i. f (arts ! i)) [0..<length arts] = map f arts"
proof -
  have "map (\<lambda>i. f (arts ! i)) [0..<length arts] = map (f \<circ> (\<lambda>i. arts ! i)) [0..<length arts]"
    by (simp only: o_def)
  also have "\<dots> = map f (map (\<lambda>i. arts ! i) [0..<length arts])" by (simp only: map_map)
  also have "\<dots> = map f arts" by (simp only: map_nth)
  finally show ?thesis .
qed

lemma batch_urls_of_batch:
  "map (\<lambda>(i, p). url (article p))
      (map (\<lambda>(index, a). (f index, \<lparr>article = a, reprocess = None\<rparr>)) (enumerate n arts)) =
   map url arts"
proof -
  have "map (\<lambda>(i, p). url (article p))
      (map (\<lambda>(index, a). (f index, \<lparr>article = a, reprocess = None\<rparr>)) (enumerate n arts)) =
        map (\<lambda>(index, a). url a) (enumerate n arts)"
    unfolding map_map by (rule map_cong) auto
  then show ?thesis by (simp only: map_enumerate_snd)
qed

lemma trigger_urls_of_result:
  "map trigger_url
     (map (\<lambda>(index, instance). \<lparr>trigger_url = url (arts ! index), processor_id = instance,
                                 status = ''triggered''\<rparr>)
          (enumerate 0 ids)) = map (\<lambda>i. url (arts ! i)) [0..<length ids]"
proof -
  have "map trigger_url
     (map (\<lambda>(index, instance). \<lparr>trigger_url = url (arts ! index), processor_id = instance,
                                 status = ''triggered''\<rparr>)
          (enumerate 0 ids)) = map (\<lambda>(index, instance). url (arts ! index)) (enumerate 0 ids)"
    unfolding map_map by (rule map_cong) auto
  also have "\<dots> = map (\<lambda>i. url (arts ! i)) [0..<0 + length ids]"
    by (rule map_enumerate_fst)
  finally show ?thesis by simp
qed

lemma trigger_processors_result:
  "\<exists>res w' evs. trigger_processors E arts w = (Inr res, w')
      \<and> map trigger_url res = map url arts \<and> kv w' = kv w
      \<and> trace w' = trace w @ evs \<and> triggered_urls evs = map url arts
      \<and> length evs \<le> 1 \<and> list_all is_CreateBatch evs"
proof (cases "arts = []")
  case True
  then show ?thesis by (simp add: trigger_processors_def triggered_urls_def)
next
  case False
  let ?batch = "map (\<lambda>(index, a). (randomUUID E (length (trace w)) index,
                                   \<lparr>article = a, reprocess = None\<rparr>)) (enumerate 0 arts)"
  have t: "trigger_processors E arts w =
            (Inr (map (\<lambda>(index, instance).
                         \<lparr>trigger_url = url (arts ! index),
                          processor_id = instance,
                          status = ''triggered''\<rparr>)
                      (enumerate 0 (map fst ?batch))), emit (CreateBatch ?batch) w)"
    using False by (simp add: trigger_processors_def Let_def)
  have u1: "map trigger_url (map (\<lambda>(index, instance).
                         \<lparr>trigger_url = url (arts ! index),
                          processor_id = instance,
                          status = ''triggered''\<rparr>)
                      (enumerate 0 (map fst ?batch))) = map url arts"
    unfolding trigger_urls_of_result by (simp add: map_f_nth)
  have u2: "triggered_urls [CreateBatch ?batch] = map url arts"
  proof -
    have "triggered_urls [CreateBatch b] = map (\<lambda>(i, p). url (article p)) b" for b
      by (simp add: triggered_urls_def)
    then show ?thesis by (simp only: batch_urls_of_batch)
  qed
  let ?res = "map (\<lambda>(index, instance).
                         \<lparr>trigger_url = url (arts ! index),
                          processor_id = instance,
                          status = ''triggered''\<rparr>)
                      (enumerate 0 (map fst ?batch))"
  have "trigger_processors E arts w = (Inr ?res, emit (CreateBatch ?batch) w)
      \<and> map trigger_url ?res = map url arts \<and> kv (emit (CreateBatch ?batch) w) = kv w
      \<and> trace (emit (CreateBatch ?batch) w) = trace w @ [CreateBatch ?batch]
      \<and> triggered_urls [CreateBatch ?batch] = map url arts
      \<and> length [CreateBatch ?batch] \<le> 1 \<and> list_all is_CreateBatch [CreateBatch ?batch]"
    using t u1 u2 by (simp add: emit_def)
  then show ?thesis by blast
qed

lemma step_trigger_processors [simp]:
  "step_do n (trigger_processors E arts) w = trigger_processors E arts w"
  by (rule step_do_once) (use trigger_processors_result [of E arts w] in blast)

lemma triggered_urls_append [simp]:
  "triggered_urls (xs @ ys) = triggered_urls xs @ triggered_urls ys"
  by (simp add: triggered_urls_def)

lemma triggered_urls_none:
  assumes "list_all Q evs" and "\<And>e. Q e \<Longrightarrow> \<not> is_CreateBatch e"
  shows "triggered_urls evs = []" "filter is_CreateBatch evs = []"
proof -
  have "\<forall>e \<in> set evs. \<not> is_CreateBatch e" using assms by (auto simp: list_all_iff)
  then show "filter is_CreateBatch evs = []" by (simp add: filter_empty_conv)
  have "batch_urls e = []" if "\<not> is_CreateBatch e" for e
    using that by (cases e) simp_all
  with \<open>\<forall>e \<in> set evs. \<not> is_CreateBatch e\<close> show "triggered_urls evs = []"
    by (simp add: triggered_urls_def)
qed

lemma delivered_map_eq:
  assumes "\<forall>l. processed l =
             (if l \<in> set links \<and> l \<noteq> ''__proto__'' then Some (live_entry E w l) else None)"
  shows "processed = delivered_map E w links"
  using assms by (auto simp: delivered_map_def)

lemma not_batch_kinds:
  "is_KVGetBulk e \<Longrightarrow> \<not> is_CreateBatch e"
  "is_ConsoleLog e \<Longrightarrow> \<not> is_CreateBatch e"
  by (cases e; simp)+

lemma fan_out_cases:
  assumes run: "check_prepare_trigger E links feed w = (r, w')"
  shows "kv w' = kv w \<and> (\<exists>evs. trace w' = trace w @ evs \<and> fan_out_outcome E links feed w r evs)"
proof (cases "length links > 100")
  case True
  from step_check_over_limit [OF True] obtain w3 where
    s3: "step_do default_retry_limit (check_processed_articles E links) w = (Inl KVTooManyKeys, w3)"
    and e3: "effects_within is_KVGetBulk w w3"
    by blast
  from run s3 have r: "r = Inl KVTooManyKeys" and w': "w' = w3"
    by (simp_all add: check_prepare_trigger_def)
  from e3 obtain evs where kv: "kv w3 = kv w" and tr: "trace w3 = trace w @ evs"
    and all: "list_all is_KVGetBulk evs"
    by (auto simp: effects_within_def)
  have "triggered_urls evs = []"
    by (rule triggered_urls_none [OF all not_batch_kinds(1)])
  with True r have "fan_out_outcome E links feed w r evs" by (simp add: fan_out_outcome_def)
  with kv tr w' show ?thesis by blast
next
  case False
  then have len: "length links \<le> 100" by simp
  let ?P = "delivered_map E w links"
  from check_processed_articles_result [OF len, of E w] obtain processed where
    c: "check_processed_articles E links w =
           (Inr processed,
            if links = [] then w else emit (KVGetBulk (map (\<lambda>l. ''article:'' @ l) links)) w)"
    and p: "\<forall>l. processed l =
              (if l \<in> set links \<and> l \<noteq> ''__proto__'' then Some (live_entry E w l) else None)"
    by blast
  have P: "processed = ?P" by (rule delivered_map_eq [OF p])
  define w3 where "w3 = (if links = [] then w else emit (KVGetBulk (map (\<lambda>l. ''article:'' @ l) links)) w)"
  have s3: "step_do default_retry_limit (check_processed_articles E links) w = (Inr ?P, w3)"
    unfolding step_check_within_limit [OF len] using c P by (simp add: w3_def)
  obtain evs3 where kv3: "kv w3 = kv w" and tr3: "trace w3 = trace w @ evs3"
    and all3: "list_all is_KVGetBulk evs3"
    by (cases "links = []") (simp_all add: w3_def emit_def)
  have t3: "triggered_urls evs3 = []" "filter is_CreateBatch evs3 = []"
    using triggered_urls_none [OF all3 not_batch_kinds(1)] by simp_all
  show ?thesis
  proof (cases "dates_parse E ?P feed links")
    case nd: False
    from step_prepare_fails [OF nd] obtain w4 where
      s4: "step_do default_retry_limit (prepare_articles E ?P feed links) w3 = (Inl RangeError, w4)"
      and e4: "effects_within is_ConsoleLog w3 w4"
      by blast
    from run s3 s4 have r: "r = Inl RangeError" and w': "w' = w4"
      by (simp_all add: check_prepare_trigger_def)
    from e4 obtain evs4 where kv4: "kv w4 = kv w3" and tr4: "trace w4 = trace w3 @ evs4"
      and all4: "list_all is_ConsoleLog evs4"
      by (auto simp: effects_within_def)
    have t4: "triggered_urls evs4 = []"
      by (rule triggered_urls_none [OF all4 not_batch_kinds(2)])
    have "fan_out_outcome E links feed w r (evs3 @ evs4)"
      using len nd r t3 t4 by (simp add: fan_out_outcome_def)
    moreover have "trace w' = trace w @ evs3 @ evs4" using w' tr4 tr3 by simp
    moreover have "kv w' = kv w" using w' kv4 kv3 by simp
    ultimately show ?thesis by blast
  next
    case True
    from prepare_loop_completes [OF True] obtain arts w4 where
      pl: "prepare_loop E ?P feed links [] w3 = (Inr arts, w4)"
      by blast
    then have s4: "step_do default_retry_limit (prepare_articles E ?P feed links) w3 = (Inr arts, w4)"
      unfolding step_prepare_completes [OF True] by (simp add: prepare_articles_def)
    from prepare_loop_effects [OF pl] obtain evs4 where kv4: "kv w4 = kv w3"
      and tr4: "trace w4 = trace w3 @ evs4" and all4: "list_all is_ConsoleLog evs4"
      by (auto simp: effects_within_def)
    have t4: "triggered_urls evs4 = []" "filter is_CreateBatch evs4 = []"
      using triggered_urls_none [OF all4 not_batch_kinds(2)] by simp_all
    from prepare_loop_urls [OF pl] have urls: "map url arts = filter (selected ?P feed) links"
      by simp
    have logs: "drop_log ?P l \<in> set evs4" if "l \<in> set links" "\<not> selected ?P feed l" for l
      using prepare_loop_logs [OF pl that] tr4 by (simp add: run_events_def)
    from trigger_processors_result [of E arts w4] obtain res w5 evs5 where
      tp: "trigger_processors E arts w4 = (Inr res, w5)"
      and ru: "map trigger_url res = map url arts" and kv5: "kv w5 = kv w4"
      and tr5: "trace w5 = trace w4 @ evs5" and tu: "triggered_urls evs5 = map url arts"
      and l5: "length evs5 \<le> 1"
      by blast
    let ?res = "\<lparr>success = True, total_links = length links, total_processed = length arts,
                  processors = res, timestamp = toISOString E (now E w5)\<rparr>"
    from run s3 s4 tp have r: "r = Inr ?res" and w': "w' = w5"
      by (auto simp: check_prepare_trigger_def)
    have la: "length arts = length (filter (selected ?P feed) links)"
      using urls by (metis length_map)
    have f5: "length (filter is_CreateBatch (evs3 @ evs4 @ evs5)) \<le> 1"
      using t3(2) t4(2) l5 by (simp add: le_trans [OF length_filter_le])
    have lg: "list_all (\<lambda>l. selected ?P feed l \<or> drop_log ?P l \<in> set (evs3 @ evs4 @ evs5)) links"
      using logs by (auto simp: list_all_iff)
    have "fan_out_outcome E links feed w r (evs3 @ evs4 @ evs5)"
      unfolding fan_out_outcome_def
      using len True r t3 t4 tu urls ru la f5 lg by simp
    moreover have "trace w' = trace w @ evs3 @ evs4 @ evs5" using w' tr5 tr4 tr3 by simp
    moreover have "kv w' = kv w" using w' kv5 kv4 kv3 by simp
    ultimately show ?thesis by blast
  qed
qed

lemma step_fetch_article_links [simp]:
  "step_do n (fetch_article_links E u) w = fetch_article_links E u w"
  by (rule step_do_once) (simp add: fetch_article_links_def split: prod.splits)

lemma links_step_result:
  "links_step E payload w = (Inr (listing E payload w), snd (links_step E payload w))"
  by (simp add: links_step_def listing_def fetch_article_links_def split: prod.splits)

lemma run_scraper_unfold:
  "run_scraper E payload w =
     (case feed_step E payload w of
        (Inl e, w2) \<Rightarrow> (Inl e, w2)
      | (Inr feedEntries, w2) \<Rightarrow> check_prepare_trigger E (listing E payload w) feedEntries w2)"
proof -
  have "run_scraper E payload w =
          (case links_step E payload w of
             (Inl e, w1) \<Rightarrow> (Inl e, w1)
           | (Inr articleLinks, w1) \<Rightarrow>
               (case step_do 3 (fetch_feed_entries E (feedUrl_of payload)) w1 of
                  (Inl e, w2) \<Rightarrow> (Inl e, w2)
                | (Inr feedEntries, w2) \<Rightarrow>
                    check_prepare_trigger E articleLinks feedEntries w2))"
    by (simp only: run_scraper_def links_step_def mainUrl_of_def feedUrl_of_def Let_def)
  also have "\<dots> = (case step_do 3 (fetch_feed_entries E (feedUrl_of payload))
                            (snd (links_step E payload w)) of
                  (Inl e, w2) \<Rightarrow> (Inl e, w2)
                | (Inr feedEntries, w2) \<Rightarrow>
                    check_prepare_trigger E (listing E payload w) feedEntries w2)"
    by (subst links_step_result) simp
  finally show ?thesis by (simp only: feed_step_def)
qed

lemma run_scraper_returns:
  assumes "feed_step_returns E payload w"
  shows "run_scraper E payload w =
           check_prepare_trigger E (listing E payload w) (feed_mapping E payload w)
             (world_at_check E payload w)"
  using assms
  by (cases "feed_step E payload w")
     (auto simp: run_scraper_unfold feed_step_returns_def feed_mapping_def world_at_check_def
        split: sum.splits)

lemma run_scraper_feed_fails:
  assumes "\<not> feed_step_returns E payload w"
  shows "\<exists>e. run_scraper E payload w = (Inl e, world_at_check E payload w)"
  using assms
  by (cases "feed_step E payload w")
     (auto simp: run_scraper_unfold feed_step_returns_def world_at_check_def split: sum.splits)

lemma scrapeMainPage_effects:
  "effects_within (\<lambda>e. is_KyGet e \<or> is_ConsoleError e) w (snd (scrapeMainPage E u w))"
  by (simp add: scrapeMainPage_def ky_get_def effects_within_def emit_def Let_def
        split: option.splits)

lemma scrapeFeed_effects:
  "effects_within (\<lambda>e. is_KyGet e \<or> is_ConsoleError e) w (snd (scrapeFeed E u w))"
  by (simp add: scrapeFeed_def parseRSSFeed_def ky_get_def effects_within_def emit_def Let_def
        split: option.splits)

lemma fetch_article_links_effects:
  "fetch_article_links E u w = (r, w') \<Longrightarrow>
     effects_within (\<lambda>e. is_KyGet e \<or> is_ConsoleError e) w w'"
  using scrapeMainPage_effects [of w E u]
  by (auto simp: fetch_article_links_def split: prod.splits)

lemma fetch_feed_entries_effects:
  "fetch_feed_entries E u w = (r, w') \<Longrightarrow>
     effects_within (\<lambda>e. is_KyGet e \<or> is_ConsoleError e) w w'"
  using scrapeFeed_effects [of w E u]
  by (auto simp: fetch_feed_entries_def split: prod.splits option.splits if_splits)

lemma fetch_effects:
  "effects_within (\<lambda>e. is_KyGet e \<or> is_ConsoleError e) w (world_at_check E payload w)"
proof -
  let ?Q = "\<lambda>e. is_KyGet e \<or> is_ConsoleError e"
  obtain r1 w1 where s1: "links_step E payload w = (r1, w1)" by (cases "links_step E payload w")
  obtain r2 w2 where s2: "feed_step E payload w = (r2, w2)" by (cases "feed_step E payload w")
  have e1: "effects_within ?Q w w1"
    using s1 unfolding links_step_def
    by (rule step_do_effects [rotated]) (rule fetch_article_links_effects)
  have "step_do 3 (fetch_feed_entries E (feedUrl_of payload)) w1 = (r2, w2)"
    using s1 s2 by (simp add: feed_step_def)
  then have e2: "effects_within ?Q w1 w2"
    by (rule step_do_effects [rotated]) (rule fetch_feed_entries_effects)
  from effects_within_trans [OF e1 e2] s2 show ?thesis by (simp add: world_at_check_def)
qed

lemma not_batch_fetch: "is_KyGet e \<or> is_ConsoleError e \<Longrightarrow> \<not> is_CreateBatch e"
  by (cases e) simp_all

lemma scraper_prefix:
  "kv (world_at_check E payload w) = kv w
   \<and> (\<exists>pre. trace (world_at_check E payload w) = trace w @ pre
         \<and> triggered_urls pre = [] \<and> filter is_CreateBatch pre = []
         \<and> filter is_ConsoleLog pre = [])"
proof -
  from fetch_effects [of w E payload] obtain pre where
    kvc: "kv (world_at_check E payload w) = kv w"
    and trc: "trace (world_at_check E payload w) = trace w @ pre"
    and all: "list_all (\<lambda>e. is_KyGet e \<or> is_ConsoleError e) pre"
    by (auto simp: effects_within_def)
  note np = triggered_urls_none [OF all not_batch_fetch]
  have "\<not> is_ConsoleLog e" if "is_KyGet e \<or> is_ConsoleError e" for e
    using that by (cases e) simp_all
  with all have "filter is_ConsoleLog pre = []"
    by (auto simp: filter_empty_conv list_all_iff)
  with kvc trc np show ?thesis by blast
qed

lemma scraper_shape:
  assumes ret: "feed_step_returns E payload w"
  shows "kv (snd (run_scraper E payload w)) = kv w
   \<and> (\<exists>pre evs. run_events w (snd (run_scraper E payload w)) = pre @ evs
         \<and> trace (world_at_check E payload w) = trace w @ pre
         \<and> triggered_urls pre = [] \<and> filter is_CreateBatch pre = []
         \<and> fan_out_outcome E (listing E payload w) (feed_mapping E payload w)
              (world_at_check E payload w) (fst (run_scraper E payload w)) evs)"
proof -
  let ?wc = "world_at_check E payload w"
  obtain r w' where run: "run_scraper E payload w = (r, w')" by (cases "run_scraper E payload w")
  then have cpt: "check_prepare_trigger E (listing E payload w) (feed_mapping E payload w) ?wc = (r, w')"
    by (simp add: run_scraper_returns [OF ret])
  from fan_out_cases [OF cpt] obtain evs where kv': "kv w' = kv ?wc"
    and tr': "trace w' = trace ?wc @ evs"
    and out: "fan_out_outcome E (listing E payload w) (feed_mapping E payload w) ?wc r evs"
    by blast
  from scraper_prefix [of E payload w] obtain pre where kvc: "kv ?wc = kv w"
    and trc: "trace ?wc = trace w @ pre"
    and np: "triggered_urls pre = []" "filter is_CreateBatch pre = []"
    by blast
  have "run_events w w' = pre @ evs" using tr' trc by simp
  with run kv' kvc trc np out show ?thesis by auto
qed

lemma scraper_feed_fails:
  assumes "\<not> feed_step_returns E payload w"
  shows "kv (snd (run_scraper E payload w)) = kv w
   \<and> (\<exists>e. fst (run_scraper E payload w) = Inl e)
   \<and> triggered_urls (run_events w (snd (run_scraper E payload w))) = []
   \<and> filter is_CreateBatch (run_events w (snd (run_scraper E payload w))) = []"
proof -
  from run_scraper_feed_fails [OF assms] obtain e where
    run: "run_scraper E payload w = (Inl e, world_at_check E payload w)" by blast
  from scraper_prefix [of E payload w] obtain pre where
    "kv (world_at_check E payload w) = kv w"
    "trace (world_at_check E payload w) = trace w @ pre"
    "triggered_urls pre = []" "filter is_CreateBatch pre = []"
    by blast
  with run show ?thesis by simp
qed

lemma count_list_filter:
  "count_list (filter P xs) u = (if P u then count_list xs u else 0)"
  by (induction xs) auto

lemma count_list_absent: "u \<notin> set xs \<Longrightarrow> count_list xs u = 0"
  by (induction xs) auto

lemma count_selected:
  assumes "u \<notin> set Object_prototype_names"
  shows "count_list (filter (selected (delivered_map E w links) feed) links) u =
           (if live_entry E w u \<or> feed u = None then 0 else count_list links u)"
proof -
  from assms have np: "u \<noteq> ''__proto__''" by (auto simp: Object_prototype_names_def)
  show ?thesis
  proof (cases "u \<in> set links")
    case True
    with assms np show ?thesis
      by (simp add: count_list_filter selected_def marked_delivered_map js_get_Undefined)
  next
    case False
    then show ?thesis by (simp add: count_list_filter count_list_absent)
  qed
qed

lemma step_do_numeral:
  "step_do (numeral k) body w =
     (case body w of
        (Inr v, w') \<Rightarrow> (Inr v, w')
      | (Inl e, w') \<Rightarrow> step_do (pred_numeral k) body w')"
  by (simp add: step_do_def numeral_eq_Suc split: prod.splits sum.splits)

lemma step_do_0: "step_do 0 body w = body w"
  by (simp add: step_do_def)

section \<open>The sample Discovery runs\<close>

lemmas discovery_eval_defs = listing_def feed_mapping_def world_at_check_def feed_step_returns_def
  links_step_def feed_step_def step_do_numeral step_do_0 fetch_article_links_def
  fetch_feed_entries_def mainUrl_of_def
  feedUrl_of_def or_default_def truthy_def or_empty_def DEFAULT_MAIN_URL_def DEFAULT_FEED_URL_def
  scrapeMainPage_def scrapeFeed_def parseRSSFeed_def feed_entry_of_def ky_get_def emit_def
  js_set_entry_def empty_object_def js_get_def marked_def Object_prototype_names_def
  Let_def live_entry_def kv_lookup_def dates_parse_def selected_def unparseable_def
  delivered_map_def

lemmas discovery_sample_defs = sample_env_def duplicate_env_def bad_date_env_def
  constructor_env_def empty_world_def

lemma sample_discovery:
  "listing sample_env None empty_world = [''https://x/a'', ''https://x/b'']"
  "feed_mapping sample_env None empty_world ''https://x/a'' \<noteq> None"
  "feed_mapping sample_env None empty_world ''https://x/b'' = None"
  "\<not> live_entry sample_env (world_at_check sample_env None empty_world) ''https://x/a''"
  "\<not> live_entry sample_env (world_at_check sample_env None empty_world) ''https://x/b''"
  "dates_parse sample_env
     (delivered_map sample_env (world_at_check sample_env None empty_world)
        (listing sample_env None empty_world))
     (feed_mapping sample_env None empty_world) (listing sample_env None empty_world)"
  "feed_step_returns sample_env None empty_world"
  by (simp_all add: discovery_eval_defs discovery_sample_defs)

lemma duplicate_discovery:
  "listing duplicate_env None empty_world = [''https://x/a'', ''https://x/a'']"
  "feed_mapping duplicate_env None empty_world ''https://x/a'' \<noteq> None"
  "\<not> live_entry duplicate_env (world_at_check duplicate_env None empty_world) ''https://x/a''"
  "dates_parse duplicate_env
     (delivered_map duplicate_env (world_at_check duplicate_env None empty_world)
        (listing duplicate_env None empty_world))
     (feed_mapping duplicate_env None empty_world) (listing duplicate_env None empty_world)"
  "feed_step_returns duplicate_env None empty_world"
  by (simp_all add: discovery_eval_defs discovery_sample_defs)

lemma bad_date_discovery:
  "listing bad_date_env None empty_world = [''https://x/a'', ''https://x/b'']"
  "entry_published (the (feed_mapping bad_date_env None empty_world ''https://x/a'')) = ''not a date''"
  "Date_parse bad_date_env ''not a date'' = None"
  "\<not> dates_parse bad_date_env
     (delivered_map bad_date_env (world_at_check bad_date_env None empty_world)
        (listing bad_date_env None empty_world))
     (feed_mapping bad_date_env None empty_world) (listing bad_date_env None empty_world)"
  "feed_step_returns bad_date_env None empty_world"
  by (simp_all add: discovery_eval_defs discovery_sample_defs)

lemma constructor_discovery:
  "listing constructor_env None empty_world = [''constructor'']"
  "feed_mapping constructor_env None empty_world ''constructor'' = None"
  "feed_mapping constructor_env None empty_world ''https://x/a'' \<noteq> None"
  "\<not> live_entry constructor_env (world_at_check constructor_env None empty_world) ''constructor''"
  "dates_parse constructor_env
     (delivered_map constructor_env (world_at_check constructor_env None empty_world)
        (listing constructor_env None empty_world))
     (feed_mapping constructor_env None empty_world) (listing constructor_env None empty_world)"
  "feed_step_returns constructor_env None empty_world"
  "selected
     (delivered_map constructor_env (world_at_check constructor_env None empty_world)
        (listing constructor_env None empty_world))
     (feed_mapping constructor_env None empty_world) ''constructor''"
  by (simp_all add: discovery_eval_defs discovery_sample_defs)

section \<open>Discovery: the fan-out\<close>

text \<open>
  C2, as amended. Take a Discovery run whose feed step returns a mapping, whose listing has
  at most 100 links and in which every selected feed entry (link not delivered, present in
  the feed) has an empty or a parseable publish date. Then the run makes at most one batch
  call, and for every URL that is not one of the twelve property names of
  \<open>Object.prototype\<close> the number of Delivery instances it triggers is zero when the URL has
  a live cache entry at the bulk check or is absent from the feed mapping, and otherwise
  the number of times the URL occurs in the listing: exactly one for a URL that occurs
  once. The listing is not deduplicated.
\<close>

theorem fan_out_per_occurrence:
  fixes E payload w u
  defines "links \<equiv> listing E payload w"
  defines "feed \<equiv> feed_mapping E payload w"
  defines "wc \<equiv> world_at_check E payload w"
  defines "evs \<equiv> run_events w (snd (run_scraper E payload w))"
  assumes ret: "feed_step_returns E payload w"
    and plain: "u \<notin> set Object_prototype_names"
    and len: "length links \<le> 100"
    and dates: "dates_parse E (delivered_map E wc links) feed links"
  shows "count_list (triggered_urls evs) u =
           (if live_entry E wc u \<or> feed u = None then 0 else count_list links u)
       \<and> length (filter is_CreateBatch evs) \<le> 1
       \<and> (\<exists>res. fst (run_scraper E payload w) = Inr res \<and> success res
             \<and> total_links res = length links
             \<and> map trigger_url (processors res) = triggered_urls evs)"
proof -
  from scraper_shape [OF ret] obtain pre evs' where
    ev: "evs = pre @ evs'" and p1: "triggered_urls pre = []" and p2: "filter is_CreateBatch pre = []"
    and out: "fan_out_outcome E links feed wc (fst (run_scraper E payload w)) evs'"
    unfolding links_def feed_def wc_def evs_def by blast
  from out len dates obtain res where r: "fst (run_scraper E payload w) = Inr res"
    and t: "triggered_urls evs' = filter (selected (delivered_map E wc links) feed) links"
    and m: "map trigger_url (processors res) = filter (selected (delivered_map E wc links) feed) links"
    and f: "length (filter is_CreateBatch evs') \<le> 1"
    and s: "success res" "total_links res = length links"
    by (auto simp: fan_out_outcome_def)
  have t': "triggered_urls evs = filter (selected (delivered_map E wc links) feed) links"
    using ev p1 t by simp
  have "count_list (triggered_urls evs) u =
           (if live_entry E wc u \<or> feed u = None then 0 else count_list links u)"
    unfolding t' using plain by (rule count_selected)
  moreover have "length (filter is_CreateBatch evs) \<le> 1" using ev p2 f by simp
  moreover have "\<exists>res. fst (run_scraper E payload w) = Inr res \<and> success res
             \<and> total_links res = length links
             \<and> map trigger_url (processors res) = triggered_urls evs"
    using r s m t' by simp
  ultimately show ?thesis by (intro conjI)
qed

theorem fan_out_per_occurrence_witness:
  "count_list (triggered_urls (run_events empty_world (snd (run_scraper sample_env None empty_world))))
     ''https://x/a'' = 1
   \<and> count_list (triggered_urls (run_events empty_world (snd (run_scraper sample_env None empty_world))))
     ''https://x/b'' = 0"
proof -
  have len: "length (listing sample_env None empty_world) \<le> 100"
    by (simp add: sample_discovery(1))
  have pa: "''https://x/a'' \<notin> set Object_prototype_names"
    and pb: "''https://x/b'' \<notin> set Object_prototype_names"
    by (simp_all add: Object_prototype_names_def)
  note a = fan_out_per_occurrence
    [where E = sample_env and payload = None and w = empty_world and u = "''https://x/a''",
     OF sample_discovery(7) pa len sample_discovery(6)]
  note b = fan_out_per_occurrence
    [where E = sample_env and payload = None and w = empty_world and u = "''https://x/b''",
     OF sample_discovery(7) pb len sample_discovery(6)]
  from a b show ?thesis
    using sample_discovery(2,3,4,5) by (simp add: sample_discovery(1))
qed

text \<open>
  The claim as stated fails on a listing that names the same URL twice: with an empty
  cache and the URL in the feed, two instances are triggered for it in one run.
\<close>

theorem duplicate_listing_triggers_twice:
  "listing duplicate_env None empty_world = [''https://x/a'', ''https://x/a'']
   \<and> \<not> live_entry duplicate_env (world_at_check duplicate_env None empty_world) ''https://x/a''
   \<and> feed_mapping duplicate_env None empty_world ''https://x/a'' \<noteq> None
   \<and> count_list (triggered_urls
         (run_events empty_world (snd (run_scraper duplicate_env None empty_world))))
       ''https://x/a'' = 2"
proof -
  let ?links = "listing duplicate_env None empty_world"
  let ?feed = "feed_mapping duplicate_env None empty_world"
  let ?wc = "world_at_check duplicate_env None empty_world"
  from scraper_shape [OF duplicate_discovery(5)] obtain pre evs where
    ev: "run_events empty_world (snd (run_scraper duplicate_env None empty_world)) = pre @ evs"
    and p: "triggered_urls pre = []"
    and out: "fan_out_outcome duplicate_env ?links ?feed ?wc
                (fst (run_scraper duplicate_env None empty_world)) evs"
    by blast
  have len: "length ?links \<le> 100" by (simp add: duplicate_discovery(1))
  from out len duplicate_discovery(4)
  have "triggered_urls evs = filter (selected (delivered_map duplicate_env ?wc ?links) ?feed) ?links"
    by (auto simp: fan_out_outcome_def)
  then have "count_list (triggered_urls (pre @ evs)) ''https://x/a'' =
          (if live_entry duplicate_env ?wc ''https://x/a'' \<or> ?feed ''https://x/a'' = None then 0
           else count_list ?links ''https://x/a'')"
    using p by (simp add: count_selected Object_prototype_names_def)
  then show ?thesis
    using duplicate_discovery(2,3) unfolding ev by (simp add: duplicate_discovery(1))
qed

section \<open>Discovery: the feed is authoritative\<close>

text \<open>
  For a URL that is not a property name of \<open>Object.prototype\<close> the feed decides: when the
  feed step returns a mapping without the URL, no Delivery instance is triggered for it,
  and a run that completes does not list it among the triggered processors and, if the URL
  was in the listing, has logged a line for it (the not-found line, or the
  already-processed line when its cache entry is live).
\<close>

lemma absent_plain_name_is_dropped:
  fixes E payload w u
  defines "links \<equiv> listing E payload w"
  defines "wc \<equiv> world_at_check E payload w"
  defines "r \<equiv> fst (run_scraper E payload w)"
  defines "evs \<equiv> run_events w (snd (run_scraper E payload w))"
  assumes ret: "feed_step_returns E payload w"
    and plain: "u \<notin> set Object_prototype_names"
    and absent: "feed_mapping E payload w u = None"
  shows "u \<notin> set (triggered_urls evs)
       \<and> (\<forall>res. r = Inr res \<longrightarrow>
             u \<notin> set (map trigger_url (processors res))
             \<and> (u \<in> set links \<longrightarrow>
                  ConsoleLog ((if live_entry E wc u then ''Skipping already processed article: ''
                               else ''Article not found in feed: '') @ u) \<in> set evs))"
proof -
  let ?feed = "feed_mapping E payload w"
  let ?P = "delivered_map E wc links"
  from plain have np: "u \<noteq> ''__proto__''" by (auto simp: Object_prototype_names_def)
  from scraper_shape [OF ret] obtain pre evs' where
    ev: "evs = pre @ evs'" and p1: "triggered_urls pre = []"
    and out: "fan_out_outcome E links ?feed wc r evs'"
    unfolding links_def wc_def evs_def r_def by blast
  have nsel: "\<not> selected ?P ?feed u"
    using absent plain by (simp add: selected_def js_get_Undefined)
  then have ns: "u \<notin> set (filter (selected ?P ?feed) links)" by simp
  have a: "u \<notin> set (triggered_urls evs)"
    using out ns ev p1 by (auto simp: fan_out_outcome_def split: if_splits)
  have b: "u \<notin> set (map trigger_url (processors res))
             \<and> (u \<in> set links \<longrightarrow>
                  ConsoleLog ((if live_entry E wc u then ''Skipping already processed article: ''
                               else ''Article not found in feed: '') @ u) \<in> set evs)"
    if res: "r = Inr res" for res
  proof -
    from out res have m: "map trigger_url (processors res) = filter (selected ?P ?feed) links"
      and lg: "list_all (\<lambda>l. selected ?P ?feed l \<or> drop_log ?P l \<in> set evs') links"
      by (auto simp: fan_out_outcome_def split: if_splits)
    have "drop_log ?P u \<in> set evs" if "u \<in> set links"
      using lg that nsel ev by (auto simp: list_all_iff)
    moreover have "drop_log ?P u = ConsoleLog ((if live_entry E wc u then ''Skipping already processed article: ''
                               else ''Article not found in feed: '') @ u)" if "u \<in> set links"
      using that np by (simp add: drop_log_def marked_delivered_map)
    ultimately show ?thesis using m ns by simp
  qed
  from a b show ?thesis by blast
qed

lemma constructor_run:
  "run_scraper constructor_env None empty_world =
     (Inr \<lparr>success = True, total_links = 1, total_processed = 1,
           processors = [\<lparr>trigger_url = ''constructor'', processor_id = ''id'',
                          status = ''triggered''\<rparr>],
           timestamp = ''2024-01-01T00:00:00.000Z''\<rparr>,
      \<lparr>kv = Map.empty,
       trace = [KyGet ''https://www.myjoyonline.com/'' (Some ''<html>''),
                KyGet ''https://www.myjoyonline.com/feed/'' (Some ''<rss>''),
                KVGetBulk [''article:constructor''],
                CreateBatch
                  [(''id'',
                    \<lparr>article =
                       \<lparr>title = [], url = ''constructor'',
                        date_published = ''2024-01-01T00:00:00.000Z'', content = [],
                        image_url = Some []\<rparr>,
                     reprocess = None\<rparr>)]]\<rparr>)"
  by (simp add: run_scraper_def check_prepare_trigger_def default_retry_limit_def
        step_do_numeral step_do_0 fetch_article_links_def fetch_feed_entries_def
        or_default_def truthy_def or_empty_def DEFAULT_MAIN_URL_def DEFAULT_FEED_URL_def
        scrapeMainPage_def scrapeFeed_def parseRSSFeed_def feed_entry_of_def ky_get_def emit_def
        js_set_entry_def empty_object_def js_get_def marked_def Object_prototype_names_def
        Let_def kv_lookup_def check_processed_articles_def GH_NEWS_CACHE_get_bulk_def
        kv_bulk_limit_def Scraper_CACHE_KEY_PREFIX_def js_set_primitive_def prepare_articles_def
        trigger_processors_def now_def datePublished_of_def
        constructor_env_def sample_env_def empty_world_def)

lemma constructor_feed:
  "dom (feed_mapping constructor_env None empty_world) = {''https://x/a''}"
  by (simp add: discovery_eval_defs discovery_sample_defs)

text \<open>
  C7. The claim does not hold of the code. The assembly step reads the feed mapping with
  \<open>feedEntries[link]\<close> on a plain object, and for a link that is a property name of
  \<open>Object.prototype\<close> that read returns the inherited property, which is truthy. With the
  listing \<open>[constructor]\<close>, a feed whose only entry is for \<open>https://x/a\<close> and an empty
  cache, the link is absent from the feed mapping, yet the run assembles an article for it
  (empty title and content, the current time as its date), triggers a Delivery instance
  with it, reports it among the triggered processors, and logs no line for it.
\<close>

theorem inherited_name_is_triggered:
  "listing constructor_env None empty_world = [''constructor'']
   \<and> dom (feed_mapping constructor_env None empty_world) = {''https://x/a''}
   \<and> feed_mapping constructor_env None empty_world ''constructor'' = None
   \<and> run_events empty_world (snd (run_scraper constructor_env None empty_world)) =
       [KyGet ''https://www.myjoyonline.com/'' (Some ''<html>''),
        KyGet ''https://www.myjoyonline.com/feed/'' (Some ''<rss>''),
        KVGetBulk [''article:constructor''],
        CreateBatch
          [(''id'',
            \<lparr>article =
               \<lparr>title = [], url = ''constructor'',
                date_published = ''2024-01-01T00:00:00.000Z'', content = [],
                image_url = Some []\<rparr>,
             reprocess = None\<rparr>)]]
   \<and> triggered_urls (run_events empty_world (snd (run_scraper constructor_env None empty_world))) =
       [''constructor'']
   \<and> (\<exists>res. fst (run_scraper constructor_env None empty_world) = Inr res
         \<and> map trigger_url (processors res) = [''constructor''] \<and> total_processed res = 1)"
proof -
  have ev: "run_events empty_world (snd (run_scraper constructor_env None empty_world)) =
       [KyGet ''https://www.myjoyonline.com/'' (Some ''<html>''),
        KyGet ''https://www.myjoyonline.com/feed/'' (Some ''<rss>''),
        KVGetBulk [''article:constructor''],
        CreateBatch
          [(''id'',
            \<lparr>article =
               \<lparr>title = [], url = ''constructor'',
                date_published = ''2024-01-01T00:00:00.000Z'', content = [],
                image_url = Some []\<rparr>,
             reprocess = None\<rparr>)]]"
    unfolding constructor_run by (simp add: run_events_def empty_world_def)
  have tr: "triggered_urls (run_events empty_world
              (snd (run_scraper constructor_env None empty_world))) = [''constructor'']"
    unfolding ev by (simp add: triggered_urls_def)
  have res: "\<exists>res. fst (run_scraper constructor_env None empty_world) = Inr res
         \<and> map trigger_url (processors res) = [''constructor''] \<and> total_processed res = 1"
    by (simp add: constructor_run)
  from constructor_discovery(1) constructor_feed constructor_discovery(2) ev tr res
  show ?thesis by (intro conjI)
qed

section \<open>Discovery: the publish date\<close>

text \<open>
  The date of an assembled article: the current time when the entry's publish date is
  empty, the parsed date in ISO form when it parses, and a RangeError when it is present
  and does not parse.
\<close>

lemma date_published_cases:
  "entry_published entry = [] \<Longrightarrow> datePublished_of E entry w = Inr (toISOString E (now E w))"
  "entry_published entry \<noteq> [] \<Longrightarrow> Date_parse E (entry_published entry) = Some t \<Longrightarrow>
     datePublished_of E entry w = Inr (toISOString E t)"
  "entry_published entry \<noteq> [] \<Longrightarrow> Date_parse E (entry_published entry) = None \<Longrightarrow>
     datePublished_of E entry w = Inl RangeError"
  by (simp_all add: datePublished_of_def)

text \<open>
  C9. The claim that assembly completes for an entry whose publish date is present but not
  parseable does not hold of the code: with the listing \<open>[https://x/a, https://x/b]\<close>, an
  empty cache and a feed entry for \<open>https://x/a\<close> whose \<open>pubDate\<close> is \<open>not a date\<close>, the
  \<open>prepare_articles\<close> step throws on every attempt, the run ends with that RangeError and
  nothing is triggered.
\<close>

theorem unparseable_date_aborts_discovery:
  "entry_published (the (feed_mapping bad_date_env None empty_world ''https://x/a'')) = ''not a date''
   \<and> Date_parse bad_date_env ''not a date'' = None
   \<and> fst (run_scraper bad_date_env None empty_world) = Inl RangeError
   \<and> triggered_urls (run_events empty_world (snd (run_scraper bad_date_env None empty_world))) = []"
proof -
  let ?links = "listing bad_date_env None empty_world"
  from scraper_shape [OF bad_date_discovery(5)] obtain pre evs where
    ev: "run_events empty_world (snd (run_scraper bad_date_env None empty_world)) = pre @ evs"
    and p: "triggered_urls pre = []"
    and out: "fan_out_outcome bad_date_env ?links (feed_mapping bad_date_env None empty_world)
                (world_at_check bad_date_env None empty_world)
                (fst (run_scraper bad_date_env None empty_world)) evs"
    by blast
  have len: "length ?links \<le> 100" by (simp add: bad_date_discovery(1))
  from out len bad_date_discovery(4)
  have "fst (run_scraper bad_date_env None empty_world) = Inl RangeError"
    and "triggered_urls evs = []"
    by (auto simp: fan_out_outcome_def)
  then show ?thesis using bad_date_discovery(2,3) p unfolding ev by simp
qed

end
